theory Spec2Isabelle
  imports Main "HOL-Library.AList"
begin

section \<open>Values of the Python program\<close>

text \<open>
  The program is \<^verbatim>\<open>synet/synthesis/ospf.py\<close>, the class \<^verbatim>\<open>OSPFSyn\<close>. Node names are
  Python strings. Every exception the code can raise is a value of \<open>error\<close>; a method
  that may raise returns \<open>error + 'a\<close> with \<open>Inl\<close> for the exception.
\<close>

type_synonym name = string

datatype error = KeyError | IndexError | AssertionError | NetworkXError | NetworkXNoPath
  | Z3Exception

text \<open>Sequencing of calls that may raise: the first exception ends the computation.\<close>

definition bind :: "error + 'a \<Rightarrow> ('a \<Rightarrow> error + 'b) \<Rightarrow> error + 'b" where
  "bind x f = (case x of Inl e \<Rightarrow> Inl e | Inr a \<Rightarrow> f a)"

text \<open>Python's \<^verbatim>\<open>d[k]\<close> on a dict: KeyError when the key is missing.\<close>

definition getitem :: "('k \<times> 'v) list \<Rightarrow> 'k \<Rightarrow> error + 'v" where
  "getitem d k = (case map_of d k of None \<Rightarrow> Inl KeyError | Some v \<Rightarrow> Inr v)"

subsection \<open>The graph object (networkx 1.x \<^verbatim>\<open>DiGraph\<close>)\<close>

text \<open>
  The code reads and writes the attributes \<^verbatim>\<open>g.node\<close> (the dict from a node to its
  attribute dict) and \<^verbatim>\<open>g.edge\<close> (the dict of dicts from a source and a target to
  the edge's attribute dict; \<^verbatim>\<open>g[u]\<close>, \<^verbatim>\<open>g.adj\<close> and \<^verbatim>\<open>g.succ\<close> are the same object).
  Both exist as plain dicts in networkx 1.x only, the version this file is written
  against (\<^verbatim>\<open>iteritems\<close>, \<^verbatim>\<open>g.edge[u][v]\<close>). A dict is an association list in
  iteration order. Node attributes are strings, edge attributes (the cost) integers.
\<close>

type_synonym attrs = "(string \<times> string) list"
type_synonym edge_attrs = "(string \<times> int) list"

record digraph =
  graph :: attrs
  node :: "(name \<times> attrs) list"
  adj :: "(name \<times> (name \<times> edge_attrs) list) list"

definition DiGraph :: digraph where
  "DiGraph = \<lparr>graph = [], node = [], adj = []\<rparr>"

text \<open>\<^verbatim>\<open>VERTEX_TYPE\<close> and \<^verbatim>\<open>NODE_TYPE\<close> of \<^verbatim>\<open>synet.utils.common\<close>: the attribute key of
  a node's type and the value that marks a router.\<close>

definition VERTEX_TYPE :: string where
  "VERTEX_TYPE = ''vertex_type''"

definition NODE_TYPE :: string where
  "NODE_TYPE = ''node''"

text \<open>\<^verbatim>\<open>g.nodes()\<close>: the keys of \<^verbatim>\<open>g.node\<close>.\<close>

definition nodes :: "digraph \<Rightarrow> name list" where
  "nodes g = map fst (node g)"

text \<open>\<^verbatim>\<open>n in g\<close> and \<^verbatim>\<open>g.has_node(n)\<close>: membership in \<^verbatim>\<open>g.node\<close>.\<close>

definition has_node :: "digraph \<Rightarrow> name \<Rightarrow> bool" where
  "has_node g n = (n \<in> set (nodes g))"

text \<open>\<^verbatim>\<open>g.has_edge(u, v)\<close>: \<^verbatim>\<open>v in g.adj[u]\<close>, False when \<open>u\<close> has no entry.\<close>

definition has_edge :: "digraph \<Rightarrow> name \<Rightarrow> name \<Rightarrow> bool" where
  "has_edge g u v = (case map_of (adj g) u of None \<Rightarrow> False | Some nbrs \<Rightarrow> map_of nbrs v \<noteq> None)"

text \<open>\<^verbatim>\<open>g.edges()\<close>: every pair of the adjacency dict.\<close>

definition edges :: "digraph \<Rightarrow> (name \<times> name) list" where
  "edges g = concat (map (\<lambda>(u, nbrs). map (\<lambda>(v, d). (u, v)) nbrs) (adj g))"

text \<open>\<^verbatim>\<open>g[u][v]\<close>: the attribute dict of an edge, KeyError when there is none.\<close>

definition edge_data :: "digraph \<Rightarrow> name \<Rightarrow> name \<Rightarrow> error + edge_attrs" where
  "edge_data g u v = bind (getitem (adj g) u) (\<lambda>nbrs. getitem nbrs v)"

text \<open>\<^verbatim>\<open>del g.node[n]\<close>: deletion of a key of the dict \<^verbatim>\<open>g.node\<close>, KeyError when the
  key is missing. Nothing else of the graph object is touched.\<close>

definition del_node_entry :: "digraph \<Rightarrow> name \<Rightarrow> error + digraph" where
  "del_node_entry g n =
     (if map_of (node g) n = None then Inl KeyError
      else Inr (g\<lparr>node := AList.delete n (node g)\<rparr>))"

section \<open>Loading the graph\<close>

text \<open>
  \<^verbatim>\<open>_load_graph\<close> (lines 56-66). The loop runs over a snapshot of
  \<^verbatim>\<open>g.nodes(data=True)\<close>; \<^verbatim>\<open>data[VERTEX_TYPE]\<close> raises KeyError on a node without a
  type. \<^verbatim>\<open>network_graph.copy() if network_graph else nx.DiGraph()\<close> tests the
  truth value of the argument: \<^verbatim>\<open>None\<close> and a graph with no node (\<^verbatim>\<open>len(g) == 0\<close>)
  give a fresh graph. (Names in this theory drop the leading underscore of a private
  method.)
\<close>

fun load_graph_loop :: "(name \<times> attrs) list \<Rightarrow> digraph \<Rightarrow> error + digraph" where
  "load_graph_loop [] g = Inr g"
| "load_graph_loop ((n, data) # rest) g =
     bind (getitem data VERTEX_TYPE) (\<lambda>t.
       if t \<noteq> NODE_TYPE then bind (del_node_entry g n) (load_graph_loop rest)
       else load_graph_loop rest g)"

definition load_graph :: "digraph option \<Rightarrow> error + digraph" where
  "load_graph network_graph =
     (let g = (case network_graph of
                 None \<Rightarrow> DiGraph
               | Some ng \<Rightarrow> if node ng = [] then DiGraph else ng)
      in load_graph_loop (node g) g)"

section \<open>The solver\<close>

text \<open>
  The z3 objects the code builds. A vertex is a constant of the enumeration sort the
  vertex registry declares, one per registered name. \<^verbatim>\<open>self.edge\<close> (EdgePhyOSPF) and
  \<^verbatim>\<open>self.edge_cost\<close> (OSPFEdgeCost) are uninterpreted functions over pairs of
  vertices; the code applies them, adds integers, and compares.
\<close>

datatype vertex = Vertex name

datatype expr = IntVal int | EdgeCostApp vertex vertex | Add expr expr

datatype formula = EdgeApp vertex vertex | Neg formula | Eq expr expr | Ge expr expr
  | Lt expr expr

text \<open>A model interprets the two functions; \<^verbatim>\<open>m.eval\<close> evaluates under it.\<close>

record z3_model =
  edge_interp :: "vertex \<Rightarrow> vertex \<Rightarrow> bool"
  edge_cost_interp :: "vertex \<Rightarrow> vertex \<Rightarrow> int"

fun eval_expr :: "z3_model \<Rightarrow> expr \<Rightarrow> int" where
  "eval_expr m (IntVal i) = i"
| "eval_expr m (EdgeCostApp u v) = edge_cost_interp m u v"
| "eval_expr m (Add a b) = eval_expr m a + eval_expr m b"

fun holds :: "z3_model \<Rightarrow> formula \<Rightarrow> bool" where
  "holds m (EdgeApp u v) = edge_interp m u v"
| "holds m (Neg f) = (\<not> holds m f)"
| "holds m (Eq a b) = (eval_expr m a = eval_expr m b)"
| "holds m (Ge a b) = (eval_expr m a \<ge> eval_expr m b)"
| "holds m (Lt a b) = (eval_expr m a < eval_expr m b)"

text \<open>
  The solver session: the assertions in the order they were added, the sizes of the
  assertion list at each \<^verbatim>\<open>push\<close>, and the model of the last satisfiable check, if
  any. Adding an assertion or pushing a scope discards the model.
\<close>

record solver =
  assertions :: "formula list"
  scopes :: "nat list"
  model :: "z3_model option"

definition Solver :: solver where
  "Solver = \<lparr>assertions = [], scopes = [], model = None\<rparr>"

definition solver_add :: "solver \<Rightarrow> formula \<Rightarrow> solver" where
  "solver_add s f = s\<lparr>assertions := assertions s @ [f], model := None\<rparr>"

definition solver_push :: "solver \<Rightarrow> solver" where
  "solver_push s = s\<lparr>scopes := length (assertions s) # scopes s, model := None\<rparr>"

text \<open>\<^verbatim>\<open>solver.model()\<close> raises when no model is available.\<close>

definition solver_model :: "solver \<Rightarrow> error + z3_model" where
  "solver_model s = (case model s of None \<Rightarrow> Inl Z3Exception | Some m \<Rightarrow> Inr m)"

text \<open>
  \<^verbatim>\<open>solver.check()\<close> is called by the user of the class, not by the class. Its
  contract: when it answers sat, the solver holds a model of every assertion.
  \<open>sat_model\<close> says that \<open>m\<close> is such a model, \<open>solved\<close> is the session after the check.
\<close>

definition sat_model :: "solver \<Rightarrow> z3_model \<Rightarrow> bool" where
  "sat_model s m = list_all (holds m) (assertions s)"

section \<open>The synthesizer object\<close>

datatype config = SetOSPFEdgeCost name name int | OtherConfig

datatype req = PathReq (path: "name list") | OtherReq

record ospf_syn =
  network_graph :: digraph
  solver :: solver
  initial_configs :: "config list"
  name_to_vertex :: "(name \<times> vertex) list"
  network_names :: "name list"
  networks :: "vertex list"
  reqs :: "req list"

definition solved :: "ospf_syn \<Rightarrow> z3_model \<Rightarrow> ospf_syn" where
  "solved st m = st\<lparr>solver := (solver st)\<lparr>model := Some m\<rparr>\<rparr>"

text \<open>A Python \<^verbatim>\<open>for\<close> loop over a list whose body updates a state and may raise.\<close>

fun for_each :: "('a \<Rightarrow> 's \<Rightarrow> error + 's) \<Rightarrow> 'a list \<Rightarrow> 's \<Rightarrow> error + 's" where
  "for_each f [] s = Inr s"
| "for_each f (x # xs) s = bind (f x s) (for_each f xs)"

text \<open>A loop that appends one result per element to a list.\<close>

fun map_err :: "('a \<Rightarrow> error + 'b) \<Rightarrow> 'a list \<Rightarrow> error + 'b list" where
  "map_err f [] = Inr []"
| "map_err f (x # xs) = bind (f x) (\<lambda>y. bind (map_err f xs) (\<lambda>ys. Inr (y # ys)))"

subsection \<open>The vertex registry\<close>

text \<open>
  Modelled from the spec: the vertex registry (\<^verbatim>\<open>SynthesisComponent._create_vertices\<close>,
  \<^verbatim>\<open>get_vertex\<close>, \<^verbatim>\<open>get_name\<close>, \<^verbatim>\<open>_get_vertex_attributes\<close>, \<^verbatim>\<open>_get_edge_attributes\<close>
  of \<^verbatim>\<open>synet.utils.common\<close>) is not among the sources. The spec: it maps node names to
  symbolic solver identifiers and back, one vertex per unique name, and partitions the
  names into routers and destination networks; output nodes carry their original
  attributes, output edges the resolved cost. Which names it registers is a parameter
  of the construction: \<open>names\<close> are the keys of \<^verbatim>\<open>name_to_vertex\<close> in iteration order,
  \<open>nets\<close> the destination networks.
\<close>

definition create_vertices :: "name list \<Rightarrow> name list \<Rightarrow> ospf_syn \<Rightarrow> ospf_syn" where
  "create_vertices names nets st =
     st\<lparr>name_to_vertex := map (\<lambda>n. (n, Vertex n)) names,
        network_names := nets,
        networks := map Vertex nets\<rparr>"

definition get_vertex :: "ospf_syn \<Rightarrow> name \<Rightarrow> error + vertex" where
  "get_vertex st n = getitem (name_to_vertex st) n"

definition get_name :: "vertex \<Rightarrow> name" where
  "get_name v = (case v of Vertex n \<Rightarrow> n)"

definition get_vertex_attributes :: "digraph \<Rightarrow> name \<Rightarrow> attrs" where
  "get_vertex_attributes g n = (case map_of (node g) n of None \<Rightarrow> [] | Some a \<Rightarrow> a)"

definition get_edge_attributes :: "name \<Rightarrow> name \<Rightarrow> edge_attrs" where
  "get_edge_attributes u v = []"

section \<open>The baseline encoding\<close>

text \<open>
  \<^verbatim>\<open>self.network_graph.edge[tmp.src][tmp.dst]['cost'] = int(tmp.cost)\<close> (line 75):
  KeyError when the graph has no such edge.
\<close>

definition set_edge_cost :: "digraph \<Rightarrow> name \<Rightarrow> name \<Rightarrow> int \<Rightarrow> error + digraph" where
  "set_edge_cost g u v c =
     bind (getitem (adj g) u) (\<lambda>nbrs.
     bind (getitem nbrs v) (\<lambda>d.
       Inr (g\<lparr>adj := AList.update u (AList.update v (AList.update ''cost'' c d) nbrs) (adj g)\<rparr>)))"

definition annotate_cost :: "config \<Rightarrow> digraph \<Rightarrow> error + digraph" where
  "annotate_cost tmp g =
     (case tmp of SetOSPFEdgeCost u v c \<Rightarrow> set_edge_cost g u v c | OtherConfig \<Rightarrow> Inr g)"

text \<open>
  The body of the inner loop of \<^verbatim>\<open>_read_input_graph\<close> (lines 83-93) for a pair that
  is not skipped. \<^verbatim>\<open>if cost:\<close> tests the truth value of
  \<^verbatim>\<open>edge[src][dst].get('cost', None)\<close>: \<^verbatim>\<open>None\<close> and \<^verbatim>\<open>0\<close> are false.
\<close>

definition read_pair :: "ospf_syn \<Rightarrow> name \<Rightarrow> name \<Rightarrow> solver \<Rightarrow> error + solver" where
  "read_pair st src dst s =
     bind (get_vertex st src) (\<lambda>src_v.
     bind (get_vertex st dst) (\<lambda>dst_v.
       if has_edge (network_graph st) src dst then
         bind (edge_data (network_graph st) src dst) (\<lambda>d.
           let cost = map_of d ''cost'';
               s1 = solver_add s (EdgeApp src_v dst_v)
           in (case cost of
                 Some c \<Rightarrow>
                   if c \<noteq> 0 then Inr (solver_add s1 (Eq (EdgeCostApp src_v dst_v) (IntVal c)))
                   else Inr (solver_add s1 (Ge (EdgeCostApp src_v dst_v) (IntVal 0)))
               | None \<Rightarrow> Inr (solver_add s1 (Ge (EdgeCostApp src_v dst_v) (IntVal 0)))))
       else Inr (solver_add s (Neg (EdgeApp src_v dst_v)))))"

definition read_dst :: "ospf_syn \<Rightarrow> name \<Rightarrow> name \<Rightarrow> solver \<Rightarrow> error + solver" where
  "read_dst st src dst s =
     (if dst \<in> set (network_names st) then Inr s else read_pair st src dst s)"

definition read_src :: "ospf_syn \<Rightarrow> name \<Rightarrow> solver \<Rightarrow> error + solver" where
  "read_src st src s =
     (if src \<in> set (network_names st) then Inr s
      else for_each (read_dst st src) (nodes (network_graph st)) s)"

definition read_input_graph :: "ospf_syn \<Rightarrow> error + ospf_syn" where
  "read_input_graph st =
     bind (for_each annotate_cost (initial_configs st) (network_graph st)) (\<lambda>g.
       let st1 = st\<lparr>network_graph := g\<rparr> in
       bind (for_each (read_src st1) (nodes g) (solver st1)) (\<lambda>s.
         Inr (st1\<lparr>solver := s\<rparr>)))"

text \<open>
  \<^verbatim>\<open>__init__\<close> (lines 32-54). \<open>names\<close> and \<open>nets\<close> stand for what \<^verbatim>\<open>_create_vertices\<close>
  registers. A missing \<^verbatim>\<open>initial_configs\<close> is the empty list.
\<close>

definition init ::
  "config list \<Rightarrow> digraph option \<Rightarrow> solver option \<Rightarrow> name list \<Rightarrow> name list \<Rightarrow> error + ospf_syn"
where
  "init cfgs ng slv names nets =
     bind (load_graph ng) (\<lambda>g.
       read_input_graph
         (create_vertices names nets
            \<lparr>network_graph = g,
             solver = (case slv of Some s \<Rightarrow> s | None \<Rightarrow> Solver),
             initial_configs = cfgs,
             name_to_vertex = [], network_names = [], networks = [],
             reqs = []\<rparr>))"

section \<open>Requirements\<close>

text \<open>\<^verbatim>\<open>add_path_req\<close> (lines 95-102): an assertion on the class of the argument, then
  an append.\<close>

definition add_path_req :: "ospf_syn \<Rightarrow> req \<Rightarrow> error + ospf_syn" where
  "add_path_req st r =
     (case r of
        PathReq p \<Rightarrow> Inr (st\<lparr>reqs := reqs st @ [r]\<rparr>)
      | OtherReq \<Rightarrow> Inl AssertionError)"

text \<open>\<^verbatim>\<open>_get_edge_cost\<close> (lines 104-112): \<^verbatim>\<open>self.network_graph[src][dst]\<close> raises
  KeyError when the graph has no edge from \<open>src\<close> to \<open>dst\<close>.\<close>

definition get_edge_cost :: "ospf_syn \<Rightarrow> name \<Rightarrow> name \<Rightarrow> error + expr" where
  "get_edge_cost st src dst =
     bind (edge_data (network_graph st) src dst) (\<lambda>d.
       let cost = (case map_of d ''cost'' of None \<Rightarrow> 0 | Some c \<Rightarrow> c) in
       if cost > 0 then Inr (IntVal cost)
       else bind (get_vertex st src) (\<lambda>src_v.
            bind (get_vertex st dst) (\<lambda>dst_v.
              Inr (EdgeCostApp src_v dst_v))))"

text \<open>The pairs \<^verbatim>\<open>(path[i], path[i + 1])\<close> for \<^verbatim>\<open>i in range(len(path) - 1)\<close>.\<close>

definition hops :: "'a list \<Rightarrow> ('a \<times> 'a) list" where
  "hops p = zip p (tl p)"

text \<open>Python's \<^verbatim>\<open>sum\<close>: starts from the integer 0 and adds from the left.\<close>

definition sum_expr :: "expr list \<Rightarrow> expr" where
  "sum_expr cs = foldl Add (IntVal 0) cs"

definition get_path_cost :: "ospf_syn \<Rightarrow> name list \<Rightarrow> error + expr" where
  "get_path_cost st p =
     bind (map_err (\<lambda>(src, dst). get_edge_cost st src dst) (hops p)) (\<lambda>edge_costs.
       Inr (sum_expr edge_costs))"

subsection \<open>Enumeration of simple paths\<close>

text \<open>
  \<^verbatim>\<open>nx.all_simple_paths(G, source, target)\<close> of networkx 1.x, which the code calls
  with no cutoff: NetworkXError when \<open>source\<close> or \<open>target\<close> is not a node of \<open>G\<close>
  (membership in \<^verbatim>\<open>G.node\<close>), the cutoff is \<^verbatim>\<open>len(G) - 1\<close>, and a depth-first walk
  over \<^verbatim>\<open>G[v]\<close> yields \<^verbatim>\<open>visited + [target]\<close> for each child that is the target and
  descends into each other child not yet visited, while fewer than \<open>cutoff\<close> edges are
  used. \<open>visited\<close> ends with the current node; the first argument after the target
  counts the edges still allowed. A node with no adjacency entry has no child.
\<close>

definition neighbors :: "digraph \<Rightarrow> name \<Rightarrow> name list" where
  "neighbors g u = (case map_of (adj g) u of None \<Rightarrow> [] | Some nbrs \<Rightarrow> map fst nbrs)"

fun simple_paths_from :: "digraph \<Rightarrow> name \<Rightarrow> nat \<Rightarrow> name list \<Rightarrow> name list list" where
  "simple_paths_from g target 0 visited = []"
| "simple_paths_from g target (Suc k) visited =
     concat (map (\<lambda>child.
        if child = target then [visited @ [target]]
        else if child \<in> set visited then []
        else simple_paths_from g target k (visited @ [child]))
      (neighbors g (last visited)))"

definition all_simple_paths :: "digraph \<Rightarrow> name \<Rightarrow> name \<Rightarrow> error + name list list" where
  "all_simple_paths g source target =
     (if \<not> has_node g source then Inl NetworkXError
      else if \<not> has_node g target then Inl NetworkXError
      else Inr (simple_paths_from g target (length (node g) - 1) [source]))"

subsection \<open>Pushing the requirements\<close>

text \<open>
  \<^verbatim>\<open>push_requirements\<close> (lines 124-140). \<^verbatim>\<open>path[0]\<close> raises IndexError on an empty
  path. The elapsed time the method returns is not modelled; the session is.
\<close>

definition push_alternative :: "ospf_syn \<Rightarrow> name list \<Rightarrow> expr \<Rightarrow> name list \<Rightarrow> solver \<Rightarrow> error + solver"
where
  "push_alternative st p path_cost sp s =
     (if p \<noteq> sp then
        bind (get_path_cost st sp) (\<lambda>simple_path_cost.
          Inr (solver_add s (Lt path_cost simple_path_cost)))
      else Inr s)"

definition push_req :: "ospf_syn \<Rightarrow> req \<Rightarrow> solver \<Rightarrow> error + solver" where
  "push_req st r s =
     (case r of
        OtherReq \<Rightarrow> Inr s
      | PathReq p \<Rightarrow>
          (case p of
             [] \<Rightarrow> Inl IndexError
           | src # _ \<Rightarrow>
               bind (get_path_cost st p) (\<lambda>path_cost.
               bind (all_simple_paths (network_graph st) src (last p)) (\<lambda>sps.
                 for_each (push_alternative st p path_cost) sps s))))"

definition push_requirements :: "ospf_syn \<Rightarrow> error + ospf_syn" where
  "push_requirements st =
     bind (for_each (push_req st) (reqs st) (solver_push (solver st))) (\<lambda>s.
       Inr (st\<lparr>solver := s\<rparr>))"

section \<open>Reading the solution\<close>

text \<open>\<^verbatim>\<open>get_output_configs\<close> (lines 142-152).\<close>

definition get_output_configs :: "ospf_syn \<Rightarrow> error + config list" where
  "get_output_configs st =
     bind (solver_model (solver st)) (\<lambda>m.
       Inr (concat (map (\<lambda>(src, src_v).
              concat (map (\<lambda>(dst, dst_v).
                if \<not> holds m (EdgeApp src_v dst_v) then []
                else [SetOSPFEdgeCost src dst (eval_expr m (EdgeCostApp src_v dst_v))])
              (name_to_vertex st)))
            (name_to_vertex st))))"

text \<open>
  \<^verbatim>\<open>add_node\<close> and \<^verbatim>\<open>add_edge\<close> of networkx 1.x: a node is new when it has no
  adjacency entry; the attributes given update the attribute dict.
\<close>

definition dict_update :: "('k \<times> 'v) list \<Rightarrow> ('k \<times> 'v) list \<Rightarrow> ('k \<times> 'v) list" where
  "dict_update d new = foldl (\<lambda>acc (k, v). AList.update k v acc) d new"

definition add_node :: "digraph \<Rightarrow> name \<Rightarrow> attrs \<Rightarrow> digraph" where
  "add_node g n a =
     (if map_of (adj g) n = None then
        g\<lparr>node := AList.update n a (node g), adj := AList.update n [] (adj g)\<rparr>
      else g\<lparr>node := AList.update n (dict_update (get_vertex_attributes g n) a) (node g)\<rparr>)"

definition add_edge :: "digraph \<Rightarrow> name \<Rightarrow> name \<Rightarrow> edge_attrs \<Rightarrow> digraph" where
  "add_edge g u v a =
     (let g1 = (if map_of (adj g) u = None then add_node g u [] else g);
          g2 = (if map_of (adj g1) v = None then add_node g1 v [] else g1);
          nbrs = (case map_of (adj g2) u of None \<Rightarrow> [] | Some x \<Rightarrow> x);
          datadict = (case map_of nbrs v of None \<Rightarrow> [] | Some d \<Rightarrow> d)
      in g2\<lparr>adj := AList.update u (AList.update v (dict_update datadict a) nbrs) (adj g2)\<rparr>)"

text \<open>\<^verbatim>\<open>get_output_network_graph\<close> (lines 154-171).\<close>

definition output_dst :: "ospf_syn \<Rightarrow> z3_model \<Rightarrow> name \<times> vertex \<Rightarrow> name \<times> vertex \<Rightarrow> digraph \<Rightarrow> digraph"
where
  "output_dst st m s d g =
     (case s of (src, src_v) \<Rightarrow> case d of (dst, dst_v) \<Rightarrow>
        let g1 = (if \<not> has_node g dst
                  then add_node g dst (get_vertex_attributes (network_graph st) (get_name dst_v))
                  else g)
        in if holds m (EdgeApp src_v dst_v)
           then add_edge g1 src dst
                  (dict_update [(''cost'', eval_expr m (EdgeCostApp src_v dst_v))]
                     (get_edge_attributes (get_name src_v) (get_name dst_v)))
           else g1)"

definition output_src :: "ospf_syn \<Rightarrow> z3_model \<Rightarrow> name \<times> vertex \<Rightarrow> digraph \<Rightarrow> digraph" where
  "output_src st m s g =
     foldl (\<lambda>acc d. output_dst st m s d acc)
       (add_node g (fst s) (get_vertex_attributes (network_graph st) (get_name (snd s))))
       (name_to_vertex st)"

definition get_output_network_graph :: "ospf_syn \<Rightarrow> error + digraph" where
  "get_output_network_graph st =
     bind (solver_model (solver st)) (\<lambda>m.
       Inr (foldl (\<lambda>acc s. output_src st m s acc) DiGraph (name_to_vertex st)))"

subsection \<open>Routing graphs\<close>

text \<open>
  \<^verbatim>\<open>nx.has_path\<close> and \<^verbatim>\<open>nx.shortest_path(G, source, target, weight)\<close>, by their
  contract in the graph library: an error when an endpoint is not a node of \<open>G\<close>;
  the path from a node to itself is the node alone; otherwise \<^verbatim>\<open>has_path\<close> says
  whether a path exists and \<^verbatim>\<open>shortest_path\<close> returns one of least total weight
  (here the first such in the order of the depth-first enumeration), NetworkXNoPath
  when there is none. An edge without the weight attribute weighs 1.
\<close>

definition edge_weight :: "digraph \<Rightarrow> string \<Rightarrow> name \<times> name \<Rightarrow> int" where
  "edge_weight g w e =
     (case edge_data g (fst e) (snd e) of
        Inl _ \<Rightarrow> 1
      | Inr d \<Rightarrow> (case map_of d w of None \<Rightarrow> 1 | Some c \<Rightarrow> c))"

definition path_weight :: "digraph \<Rightarrow> string \<Rightarrow> name list \<Rightarrow> int" where
  "path_weight g w p = sum_list (map (edge_weight g w) (hops p))"

fun first_min :: "('a \<Rightarrow> int) \<Rightarrow> 'a \<Rightarrow> 'a list \<Rightarrow> 'a" where
  "first_min f best [] = best"
| "first_min f best (x # xs) = first_min f (if f x < f best then x else best) xs"

definition has_path :: "digraph \<Rightarrow> name \<Rightarrow> name \<Rightarrow> error + bool" where
  "has_path g source target =
     (if \<not> has_node g source \<or> \<not> has_node g target then Inl NetworkXError
      else Inr (source = target \<or>
                simple_paths_from g target (length (node g) - 1) [source] \<noteq> []))"

definition shortest_path :: "digraph \<Rightarrow> name \<Rightarrow> name \<Rightarrow> string \<Rightarrow> error + name list" where
  "shortest_path g source target weight =
     (if \<not> has_node g source \<or> \<not> has_node g target then Inl NetworkXError
      else if source = target then Inr [source]
      else (case simple_paths_from g target (length (node g) - 1) [source] of
              [] \<Rightarrow> Inl NetworkXNoPath
            | p # ps \<Rightarrow> Inr (first_min (path_weight g weight) p ps)))"

text \<open>\<^verbatim>\<open>get_output_routing_graphs\<close> (lines 173-204): the body of the loop over the
  edges of a path, of the loop over the registered names, and of the loop over the
  destination networks.\<close>

definition route_hop :: "ospf_syn \<Rightarrow> z3_model \<Rightarrow> digraph \<Rightarrow> name \<times> name \<Rightarrow> digraph \<Rightarrow> error + digraph"
where
  "route_hop st m g_phy h g =
     (case h of (src, dst) \<Rightarrow>
        let g1 = (if \<not> has_node g src then add_node g src (get_vertex_attributes g_phy src)
                  else g);
            g2 = (if \<not> has_node g1 dst then add_node g1 dst (get_vertex_attributes g_phy dst)
                  else g1)
        in bind (get_vertex st src) (\<lambda>src_v.
           bind (get_vertex st dst) (\<lambda>dst_v.
             Inr (add_edge g2 src dst
                    (dict_update [(''cost'', eval_expr m (EdgeCostApp src_v dst_v))]
                       (get_edge_attributes src dst))))))"

definition route_node ::
  "ospf_syn \<Rightarrow> z3_model \<Rightarrow> digraph \<Rightarrow> name \<Rightarrow> name \<times> vertex \<Rightarrow> digraph \<Rightarrow> error + digraph"
where
  "route_node st m g_phy dst_net_name nv g =
     bind (has_path g_phy (fst nv) dst_net_name) (\<lambda>reachable.
       if \<not> reachable then Inr g
       else bind (shortest_path g_phy (fst nv) dst_net_name ''cost'') (\<lambda>p.
              for_each (route_hop st m g_phy) (hops p) g))"

definition route_net ::
  "ospf_syn \<Rightarrow> z3_model \<Rightarrow> digraph \<Rightarrow> vertex \<Rightarrow> (name \<times> digraph) list \<Rightarrow> error + (name \<times> digraph) list"
where
  "route_net st m g_phy dst_net graphs =
     (let dst_net_name = get_name dst_net;
          g = DiGraph\<lparr>graph := [(''dst'', dst_net_name)]\<rparr>
      in bind (for_each (route_node st m g_phy dst_net_name) (name_to_vertex st) g) (\<lambda>g'.
           Inr (AList.update dst_net_name g' graphs)))"

definition get_output_routing_graphs :: "ospf_syn \<Rightarrow> error + (name \<times> digraph) list" where
  "get_output_routing_graphs st =
     bind (solver_model (solver st)) (\<lambda>m.
     bind (get_output_network_graph st) (\<lambda>g_phy.
       for_each (route_net st m g_phy) (networks st) []))"

section \<open>Sessions\<close>

text \<open>
  A session is a construction followed by calls of the public methods, in any order.
  \<open>Check m\<close> stands for a call of \<^verbatim>\<open>solver.check()\<close> that answers sat and leaves the
  model \<open>m\<close>; by the solver's contract \<open>m\<close> satisfies every assertion, so a run whose
  model does not is no run of the program.
\<close>

datatype call = Add_path_req req | Push_requirements | Check z3_model

definition step :: "call \<Rightarrow> ospf_syn \<Rightarrow> error + ospf_syn" where
  "step c st =
     (case c of
        Add_path_req r \<Rightarrow> add_path_req st r
      | Push_requirements \<Rightarrow> push_requirements st
      | Check m \<Rightarrow> if sat_model (solver st) m then Inr (solved st m) else Inl Z3Exception)"

definition session ::
  "config list \<Rightarrow> digraph option \<Rightarrow> solver option \<Rightarrow> name list \<Rightarrow> name list \<Rightarrow> call list
     \<Rightarrow> error + ospf_syn"
where
  "session cfgs ng slv names nets calls =
     bind (init cfgs ng slv names nets) (for_each step calls)"

text \<open>A router, as the encoding loop tells it (lines 77-82): a node of the Topology
  Graph that is not the name of a destination network.\<close>

definition router :: "ospf_syn \<Rightarrow> name \<Rightarrow> bool" where
  "router st u = (has_node (network_graph st) u \<and> u \<notin> set (network_names st))"



text \<open>A simple path of a graph: no node twice, every hop an edge.\<close>

definition simple_path :: "digraph \<Rightarrow> name list \<Rightarrow> bool" where
  "simple_path g p = (distinct p \<and> list_all (\<lambda>(u, v). has_edge g u v) (hops p))"

section \<open>Example inputs\<close>

text \<open>The attribute dict of a router node and of a node of another type.\<close>

definition router_attrs :: attrs where
  "router_attrs = [(VERTEX_TYPE, NODE_TYPE)]"

definition peer_attrs :: attrs where
  "peer_attrs = [(VERTEX_TYPE, ''peer'')]"

text \<open>A router and a node that carries no type.\<close>

definition untyped_graph :: digraph where
  "untyped_graph =
     \<lparr>graph = [], node = [(''A'', router_attrs), (''X'', [])],
      adj = [(''A'', [(''X'', [])]), (''X'', [])]\<rparr>"

text \<open>Three routers and a peer; the routers R1 and R2 are linked through the peer only.\<close>

definition peer_graph :: digraph where
  "peer_graph =
     \<lparr>graph = [],
      node = [(''R1'', router_attrs), (''P1'', peer_attrs), (''R2'', router_attrs),
              (''R3'', router_attrs)],
      adj = [(''R1'', [(''P1'', [])]), (''P1'', [(''R2'', [])]), (''R2'', []), (''R3'', [])]\<rparr>"

text \<open>Three routers A, B, C with the links A-B, B-C and A-C, no fixed cost, and a
  destination network N that is a registered vertex but no node of the graph.\<close>

definition abc_graph :: digraph where
  "abc_graph =
     \<lparr>graph = [],
      node = [(''A'', router_attrs), (''B'', router_attrs), (''C'', router_attrs)],
      adj = [(''A'', [(''B'', []), (''C'', [])]), (''B'', [(''C'', [])]), (''C'', [])]\<rparr>"

definition abc_names :: "name list" where
  "abc_names = [''A'', ''B'', ''C'', ''N'']"

definition abc_nets :: "name list" where
  "abc_nets = [''N'']"

text \<open>A model of the baseline encoding of these three routers: the edge predicate is
  true for the three links only, the link from A to C costs 5 and every other pair 1.\<close>

definition abc_model :: z3_model where
  "abc_model =
     \<lparr>edge_interp = (\<lambda>u v. (u, v) \<in> set [(Vertex ''A'', Vertex ''B''),
                         (Vertex ''A'', Vertex ''C''), (Vertex ''B'', Vertex ''C'')]),
      edge_cost_interp = (\<lambda>u v. if (u, v) = (Vertex ''A'', Vertex ''C'') then 5 else 1)\<rparr>"

text \<open>One router R and a destination network N, and a model whose edge predicate holds
  for the pair from R to N only, at cost 3.\<close>

definition one_router_graph :: digraph where
  "one_router_graph = \<lparr>graph = [], node = [(''R'', router_attrs)], adj = [(''R'', [])]\<rparr>"

definition one_router_names :: "name list" where
  "one_router_names = [''R'', ''N'']"

definition one_router_model :: z3_model where
  "one_router_model =
     \<lparr>edge_interp = (\<lambda>u v. (u, v) = (Vertex ''R'', Vertex ''N'')),
      edge_cost_interp = (\<lambda>u v. 3)\<rparr>"

text \<open>Two routers S and T with the link from S to T and a destination network N, and
  a model whose edge predicate holds for the link and for the pair from T to N; it
  resolves the cost \<open>c\<close> for the link and 1 for every other pair.\<close>

definition two_router_graph :: digraph where
  "two_router_graph =
     \<lparr>graph = [], node = [(''S'', router_attrs), (''T'', router_attrs)],
      adj = [(''S'', [(''T'', [])]), (''T'', [])]\<rparr>"

definition two_router_names :: "name list" where
  "two_router_names = [''S'', ''T'', ''N'']"

definition two_router_model :: "int \<Rightarrow> z3_model" where
  "two_router_model c =
     \<lparr>edge_interp = (\<lambda>u v. (u, v) \<in> set [(Vertex ''S'', Vertex ''T''),
                         (Vertex ''T'', Vertex ''N'')]),
      edge_cost_interp = (\<lambda>u v. if (u, v) = (Vertex ''S'', Vertex ''T'') then c else 1)\<rparr>"
section \<open>Notions used in the statements and proofs\<close>

text \<open>Every edge of an output graph under construction joins two registered names
  between which the model makes the edge predicate true, and carries the cost the model
  resolves for them as its only attribute.\<close>

definition out_edges_ok :: "z3_model \<Rightarrow> name list \<Rightarrow> digraph \<Rightarrow> bool" where
  "out_edges_ok m names g =
     (\<forall>x y. edge_data g x y = Inl KeyError \<or>
        (edge_data g x y = Inr [(''cost'', edge_cost_interp m (Vertex x) (Vertex y))] \<and>
         x \<in> set names \<and> y \<in> set names \<and> edge_interp m (Vertex x) (Vertex y)))"


text \<open>The vertices a term or a constraint mentions.\<close>

fun expr_vertices :: "expr \<Rightarrow> vertex list" where
  "expr_vertices (IntVal i) = []"
| "expr_vertices (EdgeCostApp u v) = [u, v]"
| "expr_vertices (Add a b) = expr_vertices a @ expr_vertices b"

fun formula_vertices :: "formula \<Rightarrow> vertex list" where
  "formula_vertices (EdgeApp u v) = [u, v]"
| "formula_vertices (Neg f) = formula_vertices f"
| "formula_vertices (Eq a b) = expr_vertices a @ expr_vertices b"
| "formula_vertices (Ge a b) = expr_vertices a @ expr_vertices b"
| "formula_vertices (Lt a b) = expr_vertices a @ expr_vertices b"

text \<open>The constraints the encoding loop of \<^verbatim>\<open>_read_input_graph\<close> adds for one pair of
  names that it does not skip, and for the whole graph, in the order of the loop.\<close>

definition cost_constraint :: "digraph \<Rightarrow> name \<Rightarrow> name \<Rightarrow> formula" where
  "cost_constraint g src dst =
     (case edge_data g src dst of
        Inl _ \<Rightarrow> Ge (EdgeCostApp (Vertex src) (Vertex dst)) (IntVal 0)
      | Inr d \<Rightarrow>
          (case map_of d ''cost'' of
             None \<Rightarrow> Ge (EdgeCostApp (Vertex src) (Vertex dst)) (IntVal 0)
           | Some c \<Rightarrow>
               if c \<noteq> 0 then Eq (EdgeCostApp (Vertex src) (Vertex dst)) (IntVal c)
               else Ge (EdgeCostApp (Vertex src) (Vertex dst)) (IntVal 0)))"

definition baseline_pair :: "digraph \<Rightarrow> name \<Rightarrow> name \<Rightarrow> formula list" where
  "baseline_pair g src dst =
     (if has_edge g src dst
      then [EdgeApp (Vertex src) (Vertex dst), cost_constraint g src dst]
      else [Neg (EdgeApp (Vertex src) (Vertex dst))])"

definition baseline_src :: "digraph \<Rightarrow> name list \<Rightarrow> name \<Rightarrow> formula list" where
  "baseline_src g nets src =
     (if src \<in> set nets then []
      else concat (map (\<lambda>dst. if dst \<in> set nets then [] else baseline_pair g src dst)
                    (nodes g)))"

definition baseline :: "digraph \<Rightarrow> name list \<Rightarrow> formula list" where
  "baseline g nets = concat (map (baseline_src g nets) (nodes g))"

text \<open>What the methods called after the construction leave unchanged.\<close>

definition frame :: "ospf_syn \<Rightarrow> ospf_syn \<Rightarrow> bool" where
  "frame a b =
     (network_graph b = network_graph a \<and> name_to_vertex b = name_to_vertex a \<and>
      network_names b = network_names a \<and> networks b = networks a)"

text \<open>A solver whose model, if it holds one, satisfies its assertions.\<close>

definition consistent :: "solver \<Rightarrow> bool" where
  "consistent s = (case model s of None \<Rightarrow> True | Some m \<Rightarrow> sat_model s m)"

text \<open>The constraints \<^verbatim>\<open>push_requirements\<close> adds for one alternative path and for one
  requirement, when it does not raise.\<close>

definition alternative_constraints :: "ospf_syn \<Rightarrow> name list \<Rightarrow> expr \<Rightarrow> name list \<Rightarrow> formula list"
where
  "alternative_constraints st p path_cost sp =
     (if p \<noteq> sp
      then (case get_path_cost st sp of Inl _ \<Rightarrow> [] | Inr c \<Rightarrow> [Lt path_cost c])
      else [])"

definition req_constraints :: "ospf_syn \<Rightarrow> req \<Rightarrow> formula list" where
  "req_constraints st r =
     (case r of
        OtherReq \<Rightarrow> []
      | PathReq p \<Rightarrow>
          (case get_path_cost st p of
             Inl _ \<Rightarrow> []
           | Inr path_cost \<Rightarrow>
               (case all_simple_paths (network_graph st) (hd p) (last p) of
                  Inl _ \<Rightarrow> []
                | Inr sps \<Rightarrow> concat (map (alternative_constraints st p path_cost) sps))))"

text \<open>A routing tree under construction for the destination \<open>d\<close>: from each of its nodes
  the output graph has a path to \<open>d\<close>, and each of its edges is an edge of the output graph
  and carries the cost the model resolves for it as its only attribute.\<close>

definition tree_ok :: "z3_model \<Rightarrow> digraph \<Rightarrow> name \<Rightarrow> digraph \<Rightarrow> bool" where
  "tree_ok m g_phy d g =
     ((\<forall>n \<in> set (nodes g). has_path g_phy n d = Inr True) \<and>
      (\<forall>x y. edge_data g x y = Inl KeyError \<or>
         (edge_data g x y = Inr [(''cost'', edge_cost_interp m (Vertex x) (Vertex y))] \<and>
          has_edge g_phy x y)))"

text \<open>The cost attribute of an edge of a graph, if it has one, and the fixed cost of a
  pair as the inputs give it: the cost of the last \<^verbatim>\<open>SetOSPFEdgeCost\<close> for the pair in
  \<^verbatim>\<open>initial_configs\<close>, and the cost attribute of the input graph when there is none.\<close>

definition cost_attr :: "digraph \<Rightarrow> name \<Rightarrow> name \<Rightarrow> int option" where
  "cost_attr g u v = (case edge_data g u v of Inl _ \<Rightarrow> None | Inr d \<Rightarrow> map_of d ''cost'')"

fun given_cost :: "config list \<Rightarrow> int option \<Rightarrow> name \<Rightarrow> name \<Rightarrow> int option" where
  "given_cost [] attr u v = attr"
| "given_cost (SetOSPFEdgeCost a b c # cfgs) attr u v =
     given_cost cfgs (if a = u \<and> b = v then Some c else attr) u v"
| "given_cost (OtherConfig # cfgs) attr u v = given_cost cfgs attr u v"

section \<open>Lemmas about the loops\<close>

lemma bind_Inr_iff: "bind x f = Inr b \<longleftrightarrow> (\<exists>a. x = Inr a \<and> f a = Inr b)"
  by (cases x) (simp_all add: bind_def)

lemma bind_Inl_left: "bind (Inl e) f = Inl e"
  by (simp add: bind_def)

lemma bind_Inr_left: "bind (Inr a) f = f a"
  by (simp add: bind_def)

lemma getitem_Inr_iff: "getitem d k = Inr v \<longleftrightarrow> map_of d k = Some v"
  by (simp add: getitem_def split: option.splits)


lemma for_each_invariant:
  assumes "for_each f xs s = Inr s'" and "Q s"
    and "\<And>y a b. y \<in> set xs \<Longrightarrow> f y a = Inr b \<Longrightarrow> Q a \<Longrightarrow> Q b"
  shows "Q s'"
  using assms
proof (induction xs arbitrary: s)
  case Nil
  then show ?case by simp
next
  case (Cons x xs)
  from Cons.prems(1) obtain s1 where s1: "f x s = Inr s1" and rest: "for_each f xs s1 = Inr s'"
    by (auto simp: bind_Inr_iff)
  have "Q s1" using Cons.prems(3) [OF _ s1 Cons.prems(2)] by simp
  have pres: "\<And>z a b. z \<in> set xs \<Longrightarrow> f z a = Inr b \<Longrightarrow> Q a \<Longrightarrow> Q b"
    using Cons.prems(3) by (meson list.set_intros(2))
  show ?case
    by (rule Cons.IH [OF rest \<open>Q s1\<close> pres])
qed

lemma for_each_establish:
  assumes "for_each f xs s = Inr s'" and "x \<in> set xs"
    and "\<And>a b. f x a = Inr b \<Longrightarrow> Q b"
    and "\<And>y a b. y \<in> set xs \<Longrightarrow> f y a = Inr b \<Longrightarrow> Q a \<Longrightarrow> Q b"
  shows "Q s'"
  using assms
proof (induction xs arbitrary: s)
  case Nil
  then show ?case by simp
next
  case (Cons y xs)
  from Cons.prems(1) obtain s1 where s1: "f y s = Inr s1" and rest: "for_each f xs s1 = Inr s'"
    by (auto simp: bind_Inr_iff)
  have pres: "\<And>z a b. z \<in> set xs \<Longrightarrow> f z a = Inr b \<Longrightarrow> Q a \<Longrightarrow> Q b"
    using Cons.prems(4) by (meson list.set_intros(2))
  show ?case
  proof (cases "x = y")
    case True
    then have "Q s1" using Cons.prems(3) s1 by simp
    show ?thesis
      by (rule for_each_invariant [where Q = Q, OF rest \<open>Q s1\<close> pres])
  next
    case False
    then have mem: "x \<in> set xs" using Cons.prems(2) by simp
    show ?thesis
      by (rule Cons.IH [OF rest mem Cons.prems(3) pres])
  qed
qed

lemma for_each_fails:
  assumes "x \<in> set xs" and "\<And>a. \<exists>e. f x a = Inl e"
  shows "\<exists>e. for_each f xs s = Inl e"
  using assms(1)
proof (induction xs arbitrary: s)
  case Nil
  then show ?case by simp
next
  case (Cons y xs)
  show ?case
  proof (cases "f y s")
    case (Inl e)
    then show ?thesis by (simp add: bind_def)
  next
    case (Inr s1)
    with assms(2) [of s] have "x \<noteq> y" by auto
    then have "x \<in> set xs" using Cons.prems by simp
    from Cons.IH [OF this, of s1] show ?thesis using Inr by (simp add: bind_def)
  qed
qed

lemma map_err_fails:
  assumes "x \<in> set xs" and "\<exists>e. f x = Inl e"
  shows "\<exists>e. map_err f xs = Inl e"
  using assms(1)
proof (induction xs)
  case Nil
  then show ?case by simp
next
  case (Cons y xs)
  show ?case
  proof (cases "f y")
    case (Inl e)
    then show ?thesis by (simp add: bind_def)
  next
    case (Inr b)
    with assms(2) have "x \<noteq> y" by auto
    then have "x \<in> set xs" using Cons.prems by simp
    from Cons.IH [OF this] show ?thesis using Inr by (auto simp: bind_def)
  qed
qed

lemma map_err_Inr:
  "map_err f xs = Inr ys \<Longrightarrow> length ys = length xs \<and> (\<forall>i < length xs. f (xs ! i) = Inr (ys ! i))"
proof (induction xs arbitrary: ys)
  case Nil
  then show ?case by simp
next
  case (Cons x xs)
  from Cons.prems obtain y ys' where y: "f x = Inr y" and ys': "map_err f xs = Inr ys'"
    and ys: "ys = y # ys'"
    by (auto simp: bind_Inr_iff)
  from Cons.IH [OF ys'] show ?case using y ys by (auto simp: nth_Cons split: nat.splits)
qed

section \<open>Loading: the nodes kept and the failure on untyped nodes\<close>

lemma load_graph_loop_untyped:
  "(n, d) \<in> set ns \<Longrightarrow> map_of d VERTEX_TYPE = None \<Longrightarrow> load_graph_loop ns g = Inl KeyError"
proof (induction ns arbitrary: g)
  case Nil
  then show ?case by simp
next
  case (Cons a ns)
  obtain n' d' where a: "a = (n', d')" by (cases a)
  show ?case
  proof (cases "map_of d' VERTEX_TYPE")
    case None
    then show ?thesis by (simp add: a bind_def getitem_def)
  next
    case (Some t)
    with Cons.prems a have mem: "(n, d) \<in> set ns" by auto
    show ?thesis
      using Some Cons.IH [OF mem Cons.prems(2)]
      by (simp add: a bind_def getitem_def del_node_entry_def)
  qed
qed

lemma load_graph_loop_props:
  "load_graph_loop ns g = Inr g' \<Longrightarrow>
     set (node g') \<subseteq> set (node g) \<and> adj g' = adj g \<and> graph g' = graph g \<and>
     (\<forall>(n, d) \<in> set ns. \<exists>t. map_of d VERTEX_TYPE = Some t \<and>
        (t \<noteq> NODE_TYPE \<longrightarrow> n \<notin> fst ` set (node g')))"
proof (induction ns arbitrary: g)
  case Nil
  then show ?case by simp
next
  case (Cons a ns)
  obtain n' d' where a: "a = (n', d')" by (cases a)
  from Cons.prems obtain t where t: "map_of d' VERTEX_TYPE = Some t"
    by (auto simp: a bind_def getitem_def split: option.splits)
  show ?case
  proof (cases "t = NODE_TYPE")
    case True
    with Cons.prems t have "load_graph_loop ns g = Inr g'"
      by (simp add: a bind_def getitem_def)
    from Cons.IH [OF this] show ?thesis using t True by (auto simp: a)
  next
    case False
    with Cons.prems t obtain g1 where g1: "del_node_entry g n' = Inr g1"
      and run: "load_graph_loop ns g1 = Inr g'"
      by (auto simp: a bind_def getitem_def split: sum.splits)
    from g1 have g1_eq: "g1 = g\<lparr>node := AList.delete n' (node g)\<rparr>"
      by (auto simp: del_node_entry_def split: if_splits)
    have sub: "set (node g1) \<subseteq> set (node g)" and "n' \<notin> fst ` set (node g1)"
      by (auto simp: g1_eq AList.delete_eq)
    with Cons.IH [OF run] show ?thesis using t False
      by (auto simp: a g1_eq)
  qed
qed

text \<open>
  C7. A graph with a node that carries no vertex type cannot be loaded: \<^verbatim>\<open>_load_graph\<close>
  raises KeyError at \<^verbatim>\<open>data[VERTEX_TYPE]\<close>, and so does the construction of the
  synthesizer, whatever the other arguments are. No untyped node is skipped.
\<close>

theorem load_graph_untyped_node_fails:
  assumes "(n, d) \<in> set (node g)" and "map_of d VERTEX_TYPE = None"
  shows "load_graph (Some g) = Inl KeyError \<and> init cfgs (Some g) slv names nets = Inl KeyError"
proof -
  from assms(1) have "node g \<noteq> []" by auto
  then have "load_graph (Some g) = Inl KeyError"
    using load_graph_loop_untyped [OF assms] by (simp add: load_graph_def)
  then show ?thesis by (simp add: init_def bind_def)
qed

theorem load_graph_untyped_node_fails_witness:
  "(''X'', []) \<in> set (node untyped_graph) \<and> map_of [] VERTEX_TYPE = None \<and>
   load_graph (Some untyped_graph) = Inl KeyError \<and>
   init [] (Some untyped_graph) None [''A'', ''X''] [] = Inl KeyError"
proof -
  have h1: "(''X'', []) \<in> set (node untyped_graph)" by (simp add: untyped_graph_def)
  have h2: "map_of ([] :: attrs) VERTEX_TYPE = None" by simp
  show ?thesis
    using h1 load_graph_untyped_node_fails [OF h1 h2, of "[]" None "[''A'', ''X'']" "[]"]
    by simp
qed

section \<open>Evaluation of concrete inputs\<close>

lemmas graph_defs = nodes_def has_node_def has_edge_def edges_def edge_data_def
  del_node_entry_def neighbors_def getitem_def bind_def DiGraph_def
  VERTEX_TYPE_def NODE_TYPE_def router_attrs_def peer_attrs_def

lemmas session_defs = session_def init_def load_graph_def create_vertices_def
  read_input_graph_def read_src_def read_dst_def read_pair_def annotate_cost_def
  set_edge_cost_def get_vertex_def Solver_def solver_add_def solver_push_def
  step_def add_path_req_def push_requirements_def push_req_def push_alternative_def
  get_path_cost_def get_edge_cost_def hops_def sum_expr_def all_simple_paths_def
  sat_model_def solved_def

lemma load_graph_only_routers:
  assumes "load_graph ng = Inr g" and "(n, d) \<in> set (node g)"
  shows "map_of d VERTEX_TYPE = Some NODE_TYPE"
proof -
  define g0 where "g0 = (case ng of None \<Rightarrow> DiGraph | Some x \<Rightarrow> if node x = [] then DiGraph else x)"
  from assms(1) have run: "load_graph_loop (node g0) g0 = Inr g"
    by (simp add: load_graph_def g0_def Let_def)
  note props = load_graph_loop_props [OF run]
  from props assms(2) have mem: "(n, d) \<in> set (node g0)" by blast
  from props have "\<forall>x \<in> set (node g0). \<exists>t. map_of (snd x) VERTEX_TYPE = Some t \<and>
        (t \<noteq> NODE_TYPE \<longrightarrow> fst x \<notin> fst ` set (node g))"
    by (simp add: case_prod_beta)
  with mem obtain t where t: "map_of d VERTEX_TYPE = Some t"
    and out: "t \<noteq> NODE_TYPE \<longrightarrow> n \<notin> fst ` set (node g)"
    by fastforce
  have "n \<in> fst ` set (node g)" using assms(2) by force
  with out t show ?thesis by blast
qed

text \<open>
  C6. The nodes \<^verbatim>\<open>_load_graph\<close> keeps are routers (the lemma above), but the loop
  deletes a node of another type from the dict \<^verbatim>\<open>g.node\<close> only: its adjacency stays.
  On the graph with the routers R1, R2, R3 and the peer P1, the edges R1-P1 and P1-R2
  are still edges of the loaded graph, though P1 is no node of it any more, and the
  enumeration of simple paths from R1 to R2 walks through P1.
\<close>

theorem load_graph_keeps_edges_of_removed_nodes:
  "\<exists>g. load_graph (Some peer_graph) = Inr g \<and>
        nodes g = [''R1'', ''R2'', ''R3''] \<and> \<not> has_node g ''P1'' \<and>
        edges g = [(''R1'', ''P1''), (''P1'', ''R2'')] \<and>
        all_simple_paths g ''R1'' ''R2'' = Inr [[''R1'', ''P1'', ''R2'']]"
  by (simp add: load_graph_def peer_graph_def all_simple_paths_def graph_defs numeral_2_eq_2)

text \<open>
  C3 (amended). \<^verbatim>\<open>add_path_req\<close> checks the class of its argument and nothing else: a
  \<^verbatim>\<open>PathReq\<close> is appended whatever the length of its path, anything else fails the
  assertion. A requirement with an empty path fails later, with IndexError at
  \<^verbatim>\<open>path[0]\<close>, when \<^verbatim>\<open>push_requirements\<close> comes to it.
\<close>

theorem add_path_req_accepts_any_path:
  "add_path_req st (PathReq p) = Inr (st\<lparr>reqs := reqs st @ [PathReq p]\<rparr>) \<and>
   add_path_req st OtherReq = Inl AssertionError \<and>
   push_req st (PathReq []) s = Inl IndexError"
  by (simp add: add_path_req_def push_req_def)

text \<open>C3 as stated fails: a requirement whose path has one node is registered.\<close>

theorem add_path_req_short_path_counterexample:
  "length [''A''] < 2 \<and>
   (case session [] (Some abc_graph) None abc_names abc_nets [Add_path_req (PathReq [''A''])] of
      Inl e \<Rightarrow> False
    | Inr st \<Rightarrow> reqs st = [PathReq [''A'']])"
  by (simp add: session_defs abc_graph_def abc_names_def abc_nets_def graph_defs)

subsection \<open>Requirements along pairs that are no edges\<close>

lemma get_edge_cost_no_edge:
  "\<not> has_edge (network_graph st) u v \<Longrightarrow> get_edge_cost st u v = Inl KeyError"
  by (auto simp: get_edge_cost_def edge_data_def has_edge_def getitem_def bind_def
      split: option.splits)

lemma get_path_cost_no_edge:
  assumes "(u, v) \<in> set (hops p)" and "\<not> has_edge (network_graph st) u v"
  shows "\<exists>e. get_path_cost st p = Inl e"
proof -
  have "\<exists>e. (\<lambda>(src, dst). get_edge_cost st src dst) (u, v) = Inl e"
    using get_edge_cost_no_edge [OF assms(2)] by simp
  then have "\<exists>e. map_err (\<lambda>(src, dst). get_edge_cost st src dst) (hops p) = Inl e"
    by (rule map_err_fails [where f = "\<lambda>(src, dst). get_edge_cost st src dst", OF assms(1)])
  then show ?thesis
    by (auto simp: get_path_cost_def bind_def)
qed


subsection \<open>The output graph\<close>

lemma foldl_invariant:
  assumes "Q s" and "\<And>x a. x \<in> set xs \<Longrightarrow> Q a \<Longrightarrow> Q (f a x)"
  shows "Q (foldl f s xs)"
  using assms by (induction xs arbitrary: s) auto

lemma foldl_establish:
  assumes "x \<in> set xs" and "\<And>a. Q (f a x)" and "\<And>y a. y \<in> set xs \<Longrightarrow> Q a \<Longrightarrow> Q (f a y)"
  shows "Q (foldl f s xs)"
  using assms
proof (induction xs arbitrary: s)
  case Nil
  then show ?case by simp
next
  case (Cons y xs)
  show ?case
  proof (cases "x = y")
    case True
    have "Q (f s y)" using Cons.prems(2) True by simp
    then have "Q (foldl f (f s y) xs)"
      by (rule foldl_invariant) (use Cons.prems(3) in auto)
    then show ?thesis by simp
  next
    case False
    then have "x \<in> set xs" using Cons.prems(1) by simp
    then have "Q (foldl f (f s y) xs)"
      by (rule Cons.IH) (use Cons.prems in auto)
    then show ?thesis by simp
  qed
qed

lemma has_edge_edge_data: "has_edge g u v \<longleftrightarrow> (\<exists>d. edge_data g u v = Inr d)"
  by (auto simp: has_edge_def edge_data_def getitem_def bind_def split: option.splits)

lemma edge_data_add_node [simp]: "edge_data (add_node g n a) u v = edge_data g u v"
  by (auto simp: add_node_def edge_data_def getitem_def bind_def update_conv'
      split: option.splits)

lemma edge_data_add_edge:
  "edge_data (add_edge g u v a) x y =
     (if x = u \<and> y = v
      then Inr (dict_update (case edge_data g u v of Inl _ \<Rightarrow> [] | Inr d \<Rightarrow> d) a)
      else edge_data g x y)"
  by (auto simp: add_edge_def Let_def add_node_def edge_data_def getitem_def bind_def
      update_conv' split: option.splits)

lemma dict_update_cost [simp]:
  "dict_update d [(''cost'', c)] = AList.update ''cost'' c d"
  "dict_update [(''cost'', c)] (get_edge_attributes a b) = [(''cost'', c)]"
  by (simp_all add: dict_update_def get_edge_attributes_def)

text \<open>What the inner loop body of \<^verbatim>\<open>get_output_network_graph\<close> does to the edges.\<close>

lemma edge_data_output_dst:
  "edge_data (output_dst st m (s, Vertex s) (d, Vertex d) g) x y =
     (if x = s \<and> y = d \<and> edge_interp m (Vertex s) (Vertex d)
      then Inr (AList.update ''cost'' (edge_cost_interp m (Vertex s) (Vertex d))
                  (case edge_data g s d of Inl _ \<Rightarrow> [] | Inr e \<Rightarrow> e))
      else edge_data g x y)"
  by (simp add: output_dst_def Let_def edge_data_add_edge)

lemma out_edges_ok_output_dst:
  assumes "out_edges_ok m names g" and "s \<in> set names" and "d \<in> set names"
  shows "out_edges_ok m names (output_dst st m (s, Vertex s) (d, Vertex d) g)"
  unfolding out_edges_ok_def
proof (intro allI)
  fix x y
  from assms(1) have g: "edge_data g s d = Inl KeyError \<or>
        edge_data g s d = Inr [(''cost'', edge_cost_interp m (Vertex s) (Vertex d))]"
    and xy: "edge_data g x y = Inl KeyError \<or>
        (edge_data g x y = Inr [(''cost'', edge_cost_interp m (Vertex x) (Vertex y))] \<and>
         x \<in> set names \<and> y \<in> set names \<and> edge_interp m (Vertex x) (Vertex y))"
    unfolding out_edges_ok_def by blast+
  let ?g = "output_dst st m (s, Vertex s) (d, Vertex d) g"
  show "edge_data ?g x y = Inl KeyError \<or>
        (edge_data ?g x y = Inr [(''cost'', edge_cost_interp m (Vertex x) (Vertex y))] \<and>
         x \<in> set names \<and> y \<in> set names \<and> edge_interp m (Vertex x) (Vertex y))"
    using g xy assms(2,3) by (auto simp: edge_data_output_dst)
qed

lemma out_edges_ok_output_src:
  assumes "out_edges_ok m names g" and "s \<in> set names"
    and "name_to_vertex st = map (\<lambda>n. (n, Vertex n)) names"
  shows "out_edges_ok m names (output_src st m (s, Vertex s) g)"
  unfolding output_src_def
proof (rule foldl_invariant)
  show "out_edges_ok m names
     (add_node g (fst (s, Vertex s))
       (get_vertex_attributes (network_graph st) (get_name (snd (s, Vertex s)))))"
    using assms(1) by (simp add: out_edges_ok_def)
next
  fix x a
  assume "x \<in> set (name_to_vertex st)" and "out_edges_ok m names a"
  then show "out_edges_ok m names (output_dst st m (s, Vertex s) x a)"
    using assms(2,3) by (auto intro: out_edges_ok_output_dst)
qed

lemma edge_kept_output_dst:
  assumes "edge_data g x y = Inr [(''cost'', edge_cost_interp m (Vertex x) (Vertex y))]"
  shows "edge_data (output_dst st m (s, Vertex s) (d, Vertex d) g) x y =
           Inr [(''cost'', edge_cost_interp m (Vertex x) (Vertex y))]"
  using assms by (auto simp: edge_data_output_dst)

lemma edge_kept_output_src:
  assumes "edge_data g x y = Inr [(''cost'', edge_cost_interp m (Vertex x) (Vertex y))]"
    and "name_to_vertex st = map (\<lambda>n. (n, Vertex n)) names"
  shows "edge_data (output_src st m (s, Vertex s) g) x y =
           Inr [(''cost'', edge_cost_interp m (Vertex x) (Vertex y))]"
  unfolding output_src_def
proof (rule foldl_invariant [where Q = "\<lambda>g. edge_data g x y =
           Inr [(''cost'', edge_cost_interp m (Vertex x) (Vertex y))]"])
  show "edge_data (add_node g (fst (s, Vertex s))
       (get_vertex_attributes (network_graph st) (get_name (snd (s, Vertex s))))) x y =
           Inr [(''cost'', edge_cost_interp m (Vertex x) (Vertex y))]"
    using assms(1) by simp
next
  fix z a
  assume "z \<in> set (name_to_vertex st)"
    and "edge_data a x y = Inr [(''cost'', edge_cost_interp m (Vertex x) (Vertex y))]"
  then show "edge_data (output_dst st m (s, Vertex s) z a) x y =
           Inr [(''cost'', edge_cost_interp m (Vertex x) (Vertex y))]"
    using assms(2) by (auto intro: edge_kept_output_dst)
qed

lemma edge_made_output_src:
  assumes "x \<in> set names" and "y \<in> set names" and "edge_interp m (Vertex x) (Vertex y)"
    and "name_to_vertex st = map (\<lambda>n. (n, Vertex n)) names"
    and "out_edges_ok m names g"
  shows "edge_data (output_src st m (x, Vertex x) g) x y =
           Inr [(''cost'', edge_cost_interp m (Vertex x) (Vertex y))]"
proof -
  let ?c = "[(''cost'', edge_cost_interp m (Vertex x) (Vertex y))]"
  let ?Q = "\<lambda>g. out_edges_ok m names g \<and> edge_data g x y = Inr ?c"
  let ?P = "\<lambda>g. out_edges_ok m names g"
  have start: "?P (add_node g x (get_vertex_attributes (network_graph st) (get_name (Vertex x))))"
    using assms(5) by (simp add: out_edges_ok_def)
  have mem: "(y, Vertex y) \<in> set (name_to_vertex st)" using assms(2,4) by auto
  have step: "?P (output_dst st m (x, Vertex x) z a)"
    if "z \<in> set (name_to_vertex st)" "?P a" for z a
    using that assms(1,4) by (auto intro: out_edges_ok_output_dst)
  have made: "edge_data (output_dst st m (x, Vertex x) (y, Vertex y) a) x y = Inr ?c"
    if "?P a" for a
  proof -
    from that have "edge_data a x y = Inl KeyError \<or> edge_data a x y = Inr ?c"
      unfolding out_edges_ok_def by blast
    then show ?thesis using assms(3) by (auto simp: edge_data_output_dst)
  qed
  have kept: "edge_data (output_dst st m (x, Vertex x) z a) x y = Inr ?c"
    if "z \<in> set (name_to_vertex st)" "edge_data a x y = Inr ?c" for z a
    using that assms(4) by (auto intro: edge_kept_output_dst)
  obtain pre post where split: "name_to_vertex st = pre @ (y, Vertex y) # post"
    using mem by (meson split_list)
  let ?g0 = "add_node g x (get_vertex_attributes (network_graph st) (get_name (Vertex x)))"
  let ?f = "\<lambda>acc d. output_dst st m (x, Vertex x) d acc"
  have "?P (foldl ?f ?g0 pre)"
    by (rule foldl_invariant [where Q = ?P, OF start]) (use step split in auto)
  then have "edge_data (?f (foldl ?f ?g0 pre) (y, Vertex y)) x y = Inr ?c"
    by (rule made)
  then have "edge_data (foldl ?f (?f (foldl ?f ?g0 pre) (y, Vertex y)) post) x y = Inr ?c"
    by (rule foldl_invariant [where Q = "\<lambda>g. edge_data g x y = Inr ?c"])
       (use kept split in auto)
  then show ?thesis by (simp add: output_src_def split)
qed

lemma out_edges_ok_DiGraph: "out_edges_ok m names DiGraph"
  by (simp add: out_edges_ok_def edge_data_def DiGraph_def getitem_def bind_def)

text \<open>The edges of the output graph: the pairs of registered names for which the model
  makes the edge predicate true, each with the resolved cost as its only attribute.\<close>

lemma output_graph_edge_data:
  assumes m: "model (solver st) = Some m"
    and ntv: "name_to_vertex st = map (\<lambda>n. (n, Vertex n)) names"
    and g: "get_output_network_graph st = Inr g"
  shows "edge_data g x y =
           (if x \<in> set names \<and> y \<in> set names \<and> edge_interp m (Vertex x) (Vertex y)
            then Inr [(''cost'', edge_cost_interp m (Vertex x) (Vertex y))]
            else Inl KeyError)"
proof -
  let ?f = "\<lambda>acc s. output_src st m s acc"
  let ?c = "[(''cost'', edge_cost_interp m (Vertex x) (Vertex y))]"
  have g_eq: "g = foldl ?f DiGraph (name_to_vertex st)"
    using g m by (simp add: get_output_network_graph_def solver_model_def bind_def)
  have step: "out_edges_ok m names (?f a z)"
    if "z \<in> set (name_to_vertex st)" "out_edges_ok m names a" for z a
    using that ntv by (auto intro: out_edges_ok_output_src)
  have ok: "out_edges_ok m names g"
    unfolding g_eq by (rule foldl_invariant [where Q = "out_edges_ok m names"])
      (use step out_edges_ok_DiGraph in auto)
  show ?thesis
  proof (cases "x \<in> set names \<and> y \<in> set names \<and> edge_interp m (Vertex x) (Vertex y)")
    case False
    then show ?thesis using ok unfolding out_edges_ok_def by (smt (verit, best))
  next
    case True
    then have "(x, Vertex x) \<in> set (name_to_vertex st)" using ntv by auto
    then obtain pre post where split: "name_to_vertex st = pre @ (x, Vertex x) # post"
      by (meson split_list)
    have "out_edges_ok m names (foldl ?f DiGraph pre)"
      by (rule foldl_invariant [where Q = "out_edges_ok m names"])
        (use step split out_edges_ok_DiGraph in auto)
    then have made: "edge_data (?f (foldl ?f DiGraph pre) (x, Vertex x)) x y = Inr ?c"
      using True ntv by (auto intro: edge_made_output_src)
    have kept: "edge_data (?f a z) x y = Inr ?c"
      if "z \<in> set (name_to_vertex st)" "edge_data a x y = Inr ?c" for z a
      using that ntv by (auto intro: edge_kept_output_src)
    have "edge_data (foldl ?f (?f (foldl ?f DiGraph pre) (x, Vertex x)) post) x y = Inr ?c"
      by (rule foldl_invariant [where Q = "\<lambda>g. edge_data g x y = Inr ?c", OF made])
        (use kept split in auto)
    then show ?thesis using True by (simp add: g_eq split)
  qed
qed

lemma output_graph_has_edge:
  assumes "model (solver st) = Some m"
    and "name_to_vertex st = map (\<lambda>n. (n, Vertex n)) names"
    and "get_output_network_graph st = Inr g"
  shows "has_edge g x y \<longleftrightarrow>
           x \<in> set names \<and> y \<in> set names \<and> edge_interp m (Vertex x) (Vertex y)"
  by (simp add: has_edge_edge_data output_graph_edge_data [OF assms])

lemma output_configs_mem:
  assumes "model (solver st) = Some m"
    and "name_to_vertex st = map (\<lambda>n. (n, Vertex n)) names"
    and "get_output_configs st = Inr out"
  shows "SetOSPFEdgeCost x y c \<in> set out \<longleftrightarrow>
           x \<in> set names \<and> y \<in> set names \<and> edge_interp m (Vertex x) (Vertex y) \<and>
           c = edge_cost_interp m (Vertex x) (Vertex y)"
  using assms
  by (auto simp: get_output_configs_def solver_model_def bind_def)

subsection \<open>The baseline encoding\<close>

lemma get_vertex_registered:
  assumes "name_to_vertex st = map (\<lambda>n. (n, Vertex n)) names"
  shows "get_vertex st n = (if n \<in> set names then Inr (Vertex n) else Inl KeyError)"
  using assms by (simp add: get_vertex_def getitem_def map_of_map_restrict restrict_map_def)

lemma for_each_appends:
  assumes "for_each f xs s = Inr s'"
    and "\<And>x a b. x \<in> set xs \<Longrightarrow> f x a = Inr b \<Longrightarrow> proj b = proj a @ h x"
  shows "proj s' = proj s @ concat (map h xs)"
  using assms
proof (induction xs arbitrary: s)
  case Nil
  then show ?case by simp
next
  case (Cons x xs)
  from Cons.prems(1) obtain s1 where s1: "f x s = Inr s1" and rest: "for_each f xs s1 = Inr s'"
    by (auto simp: bind_Inr_iff)
  have pres: "\<And>z a b. z \<in> set xs \<Longrightarrow> f z a = Inr b \<Longrightarrow> proj b = proj a @ h z"
    using Cons.prems(2) by (meson list.set_intros(2))
  have "proj s' = proj s1 @ concat (map h xs)"
    by (rule Cons.IH [OF rest pres])
  moreover have "proj s1 = proj s @ h x"
    using Cons.prems(2) [OF _ s1] by simp
  ultimately show ?case by simp
qed

lemma read_pair_appends:
  assumes "name_to_vertex st = map (\<lambda>n. (n, Vertex n)) names"
    and "read_pair st src dst s = Inr s'"
  shows "assertions s' = assertions s @ baseline_pair (network_graph st) src dst"
  using assms(2)
  by (auto simp: read_pair_def get_vertex_registered [OF assms(1)] bind_def Let_def
      baseline_pair_def cost_constraint_def solver_add_def has_edge_edge_data
      split: if_splits option.splits sum.splits)

lemma read_src_appends:
  assumes "name_to_vertex st = map (\<lambda>n. (n, Vertex n)) names"
    and "read_src st src s = Inr s'"
  shows "assertions s' =
           assertions s @ baseline_src (network_graph st) (network_names st) src"
proof (cases "src \<in> set (network_names st)")
  case True
  then show ?thesis using assms(2) by (simp add: read_src_def baseline_src_def)
next
  case False
  then have run: "for_each (read_dst st src) (nodes (network_graph st)) s = Inr s'"
    using assms(2) by (simp add: read_src_def)
  have "assertions s' = assertions s @
          concat (map (\<lambda>dst. if dst \<in> set (network_names st) then []
                        else baseline_pair (network_graph st) src dst)
                    (nodes (network_graph st)))"
  proof (rule for_each_appends [OF run])
    fix x a b
    assume "read_dst st src x a = Inr b"
    then show "assertions b = assertions a @
        (if x \<in> set (network_names st) then [] else baseline_pair (network_graph st) src x)"
      using read_pair_appends [OF assms(1)] by (auto simp: read_dst_def split: if_splits)
  qed
  then show ?thesis using False by (simp add: baseline_src_def)
qed

lemma read_src_frame:
  assumes "name_to_vertex a = name_to_vertex b" and "network_names a = network_names b"
    and "network_graph a = network_graph b"
  shows "read_src a = read_src b"
proof -
  have "read_pair a = read_pair b"
    using assms by (intro ext) (simp add: read_pair_def get_vertex_def cong del: if_weak_cong)
  then have "read_dst a = read_dst b"
    using assms by (intro ext) (simp add: read_dst_def)
  then show ?thesis
    using assms by (intro ext) (simp add: read_src_def)
qed

lemma init_fields:
  assumes "init cfgs ng slv names nets = Inr st"
  shows "name_to_vertex st = map (\<lambda>n. (n, Vertex n)) names"
    and "network_names st = nets"
    and "networks st = map Vertex nets"
    and "reqs st = []"
    and "\<exists>g0. load_graph ng = Inr g0 \<and> for_each annotate_cost cfgs g0 = Inr (network_graph st)"
    and "for_each (read_src st) (nodes (network_graph st))
           (case slv of Some s \<Rightarrow> s | None \<Rightarrow> Solver) = Inr (solver st)"
proof -
  from assms obtain g0 where g0: "load_graph ng = Inr g0"
    by (auto simp: init_def bind_Inr_iff)
  let ?st0 = "create_vertices names nets
            \<lparr>network_graph = g0,
             solver = (case slv of Some s \<Rightarrow> s | None \<Rightarrow> Solver),
             initial_configs = cfgs,
             name_to_vertex = [], network_names = [], networks = [],
             reqs = []\<rparr>"
  from assms g0 have r: "read_input_graph ?st0 = Inr st"
    by (simp add: init_def bind_def)
  then obtain g s where g: "for_each annotate_cost cfgs g0 = Inr g"
    and s: "for_each (read_src (?st0\<lparr>network_graph := g\<rparr>)) (nodes g)
              (case slv of Some s \<Rightarrow> s | None \<Rightarrow> Solver) = Inr s"
    and st: "st = ?st0\<lparr>network_graph := g, solver := s\<rparr>"
    by (auto simp: read_input_graph_def bind_Inr_iff Let_def create_vertices_def)
  show "name_to_vertex st = map (\<lambda>n. (n, Vertex n)) names" "network_names st = nets"
    "networks st = map Vertex nets" "reqs st = []"
    by (simp_all add: st create_vertices_def)
  show "\<exists>g0. load_graph ng = Inr g0 \<and> for_each annotate_cost cfgs g0 = Inr (network_graph st)"
    using g0 g by (simp add: st create_vertices_def)
  have "read_src (?st0\<lparr>network_graph := g\<rparr>) = read_src st"
    by (rule read_src_frame) (simp_all add: st create_vertices_def)
  then show "for_each (read_src st) (nodes (network_graph st))
           (case slv of Some s \<Rightarrow> s | None \<Rightarrow> Solver) = Inr (solver st)"
    using s by (simp add: st create_vertices_def)
qed

text \<open>The assertions after the construction: those of the solver handed in, then the
  baseline encoding of the Topology Graph.\<close>

lemma init_assertions:
  assumes "init cfgs ng slv names nets = Inr st"
  shows "assertions (solver st) =
           assertions (case slv of Some s \<Rightarrow> s | None \<Rightarrow> Solver) @
           baseline (network_graph st) nets"
proof -
  note f = init_fields [OF assms]
  have "assertions (solver st) =
          assertions (case slv of Some s \<Rightarrow> s | None \<Rightarrow> Solver) @
          concat (map (baseline_src (network_graph st) (network_names st))
                    (nodes (network_graph st)))"
    by (rule for_each_appends [OF f(6)]) (rule read_src_appends [OF f(1)])
  then show ?thesis by (simp add: baseline_def f(2))
qed

subsection \<open>Destination networks\<close>

lemma cost_constraint_vertices [simp]:
  "formula_vertices (cost_constraint g s d) = [Vertex s, Vertex d]"
  by (simp add: cost_constraint_def split: sum.splits option.splits)

lemma baseline_pair_vertices:
  "f \<in> set (baseline_pair g s d) \<Longrightarrow> formula_vertices f = [Vertex s, Vertex d]"
  by (auto simp: baseline_pair_def split: if_splits)

lemma baseline_mem:
  "f \<in> set (baseline g nets) \<longleftrightarrow>
     (\<exists>s d. s \<in> set (nodes g) \<and> s \<notin> set nets \<and> d \<in> set (nodes g) \<and> d \<notin> set nets \<and>
            f \<in> set (baseline_pair g s d))"
  by (auto simp: baseline_def baseline_src_def split: if_splits)

lemma baseline_vertices:
  assumes "f \<in> set (baseline g nets)" and "v \<in> set (formula_vertices f)"
  shows "get_name v \<notin> set nets"
proof -
  from assms(1) obtain s d where "s \<notin> set nets" "d \<notin> set nets" "f \<in> set (baseline_pair g s d)"
    unfolding baseline_mem by blast
  then show ?thesis using assms(2) baseline_pair_vertices [of f g s d]
    by (auto simp: get_name_def)
qed

lemma eval_expr_edge_update [simp]:
  "eval_expr (m\<lparr>edge_interp := e\<rparr>) x = eval_expr m x"
  by (induction x) simp_all

lemma holds_edge_update:
  assumes "Vertex n \<notin> set (formula_vertices f)"
  shows "holds (m\<lparr>edge_interp := (\<lambda>a b. (a = Vertex u \<and> b = Vertex n) \<or> edge_interp m a b)\<rparr>) f
           = holds m f"
  using assms by (induction f) auto

lemma session_check:
  assumes "init cfgs ng slv names nets = Inr st" and "sat_model (solver st) m"
  shows "session cfgs ng slv names nets [Check m] = Inr (solved st m)"
  using assms by (simp add: session_def step_def bind_def)

lemma solved_fields [simp]:
  "model (solver (solved st m)) = Some m"
  "name_to_vertex (solved st m) = name_to_vertex st"
  "network_graph (solved st m) = network_graph st"
  "networks (solved st m) = networks st"
  "network_names (solved st m) = network_names st"
  "assertions (solver (solved st m)) = assertions (solver st)"
  "reqs (solved st m) = reqs st"
  by (simp_all add: solved_def)

lemma get_output_configs_total:
  "model (solver st) = Some m \<Longrightarrow> \<exists>out. get_output_configs st = Inr out"
  by (simp add: get_output_configs_def solver_model_def bind_def)

lemma get_output_network_graph_total:
  "model (solver st) = Some m \<Longrightarrow> \<exists>g. get_output_network_graph st = Inr g"
  by (simp add: get_output_network_graph_def solver_model_def bind_def)

text \<open>
  C10. The constraints of the baseline encoding mention no vertex of a destination
  network: after a construction with a fresh solver, every vertex of every assertion has
  a name outside the destination networks. The output views range over every registered
  name. Hence, for a registered name \<open>u\<close> and a registered destination network \<open>n\<close>,
  whenever the baseline is satisfiable there is a session solved with a satisfying model
  whose \<^verbatim>\<open>get_output_configs\<close> has a triple for \<open>(u, n)\<close> and whose
  \<^verbatim>\<open>get_output_network_graph\<close> has the edge from \<open>u\<close> to \<open>n\<close>, while no assertion states
  the edge predicate for that pair.
\<close>

theorem baseline_skips_networks_outputs_do_not:
  assumes init: "init cfgs ng None names nets = Inr st"
    and sat: "sat_model (solver st) m"
    and u: "u \<in> set names" and n: "n \<in> set names" and net: "n \<in> set nets"
  shows "list_all (\<lambda>f. list_all (\<lambda>v. get_name v \<notin> set nets) (formula_vertices f))
           (assertions (solver st)) \<and>
         (\<exists>m' st' out g c.
            session cfgs ng None names nets [Check m'] = Inr st' \<and>
            get_output_configs st' = Inr out \<and> SetOSPFEdgeCost u n c \<in> set out \<and>
            get_output_network_graph st' = Inr g \<and> has_edge g u n \<and>
            EdgeApp (Vertex u) (Vertex n) \<notin> set (assertions (solver st')))"
proof -
  have a: "assertions (solver st) = baseline (network_graph st) nets"
    using init_assertions [OF init] by (simp add: Solver_def)
  have voc: "get_name v \<notin> set nets"
    if "f \<in> set (assertions (solver st))" "v \<in> set (formula_vertices f)" for f v
    using that baseline_vertices unfolding a by blast
  have no_n: "Vertex n \<notin> set (formula_vertices f)" if "f \<in> set (assertions (solver st))" for f
    using voc [OF that, of "Vertex n"] net by (auto simp: get_name_def)
  let ?m = "m\<lparr>edge_interp := (\<lambda>a b. (a = Vertex u \<and> b = Vertex n) \<or> edge_interp m a b)\<rparr>"
  have sat': "sat_model (solver st) ?m"
    using sat no_n by (simp add: sat_model_def list_all_iff holds_edge_update)
  let ?st = "solved st ?m"
  have run: "session cfgs ng None names nets [Check ?m] = Inr ?st"
    by (rule session_check [OF init sat'])
  have ntv: "name_to_vertex ?st = map (\<lambda>n. (n, Vertex n)) names"
    using init_fields(1) [OF init] by simp
  have md: "model (solver ?st) = Some ?m" by simp
  obtain out where out: "get_output_configs ?st = Inr out"
    using get_output_configs_total [OF md] by blast
  obtain g where g: "get_output_network_graph ?st = Inr g"
    using get_output_network_graph_total [OF md] by blast
  have "SetOSPFEdgeCost u n (edge_cost_interp ?m (Vertex u) (Vertex n)) \<in> set out"
    using output_configs_mem [OF md ntv out] u n by simp
  moreover have "has_edge g u n"
    using output_graph_has_edge [OF md ntv g] u n by simp
  moreover have "EdgeApp (Vertex u) (Vertex n) \<notin> set (assertions (solver ?st))"
    using no_n [of "EdgeApp (Vertex u) (Vertex n)"] by auto
  ultimately have "\<exists>m' st' out g c.
            session cfgs ng None names nets [Check m'] = Inr st' \<and>
            get_output_configs st' = Inr out \<and> SetOSPFEdgeCost u n c \<in> set out \<and>
            get_output_network_graph st' = Inr g \<and> has_edge g u n \<and>
            EdgeApp (Vertex u) (Vertex n) \<notin> set (assertions (solver st'))"
    using run out g by blast
  moreover have "list_all (\<lambda>f. list_all (\<lambda>v. get_name v \<notin> set nets) (formula_vertices f))
           (assertions (solver st))"
    using voc by (simp add: list_all_iff)
  ultimately show ?thesis by blast
qed

theorem baseline_skips_networks_outputs_do_not_witness:
  "(case init [] (Some abc_graph) None abc_names abc_nets of
      Inl e \<Rightarrow> False
    | Inr st \<Rightarrow>
        sat_model (solver st) abc_model \<and> ''C'' \<in> set abc_names \<and> ''N'' \<in> set abc_names \<and>
        ''N'' \<in> set abc_nets \<and>
        list_all (\<lambda>f. list_all (\<lambda>v. get_name v \<notin> set abc_nets) (formula_vertices f))
           (assertions (solver st)) \<and>
        (\<exists>m' st' out g c.
            session [] (Some abc_graph) None abc_names abc_nets [Check m'] = Inr st' \<and>
            get_output_configs st' = Inr out \<and> SetOSPFEdgeCost ''C'' ''N'' c \<in> set out \<and>
            get_output_network_graph st' = Inr g \<and> has_edge g ''C'' ''N'' \<and>
            EdgeApp (Vertex ''C'') (Vertex ''N'') \<notin> set (assertions (solver st'))))"
proof -
  obtain st where st: "init [] (Some abc_graph) None abc_names abc_nets = Inr st"
    by (simp add: session_defs abc_graph_def abc_names_def abc_nets_def graph_defs)
  then have sat: "sat_model (solver st) abc_model"
    by (auto simp: session_defs abc_graph_def abc_names_def abc_nets_def graph_defs
        abc_model_def)
  have mem: "''C'' \<in> set abc_names" "''N'' \<in> set abc_names" "''N'' \<in> set abc_nets"
    by (simp_all add: abc_names_def abc_nets_def)
  show ?thesis
    using baseline_skips_networks_outputs_do_not [OF st sat mem] st sat mem by simp
qed

lemma get_edge_cost_error:
  "get_edge_cost st a b = Inl e \<Longrightarrow> e = KeyError"
  by (auto simp: get_edge_cost_def get_vertex_def edge_data_def getitem_def bind_def Let_def
      split: option.splits if_splits sum.splits)

lemma map_err_fails_with:
  assumes "x \<in> set xs" and "f x = Inl E"
    and "\<And>y e. y \<in> set xs \<Longrightarrow> f y = Inl e \<Longrightarrow> e = E"
  shows "map_err f xs = Inl E"
  using assms(1,3)
proof (induction xs)
  case Nil
  then show ?case by simp
next
  case (Cons y xs)
  show ?case
  proof (cases "f y")
    case (Inl e)
    then have "e = E" using Cons.prems(2) [of y e] by simp
    then show ?thesis using Inl by (simp add: bind_def)
  next
    case (Inr b)
    then have "x \<noteq> y" using assms(2) by auto
    then have "x \<in> set xs" using Cons.prems(1) by simp
    then have "map_err f xs = Inl E"
      by (rule Cons.IH) (use Cons.prems(2) in \<open>simp, meson list.set_intros(2)\<close>)
    then show ?thesis using Inr by (simp add: bind_def)
  qed
qed

lemma get_path_cost_no_edge_KeyError:
  assumes "(u, v) \<in> set (hops p)" and "\<not> has_edge (network_graph st) u v"
  shows "get_path_cost st p = Inl KeyError"
proof -
  have "map_err (\<lambda>(src, dst). get_edge_cost st src dst) (hops p) = Inl KeyError"
  proof (rule map_err_fails_with [OF assms(1)])
    show "(case (u, v) of (src, dst) \<Rightarrow> get_edge_cost st src dst) = Inl KeyError"
      using get_edge_cost_no_edge [OF assms(2)] by simp
  next
    fix y e
    assume "(case y of (src, dst) \<Rightarrow> get_edge_cost st src dst) = Inl e"
    then show "e = KeyError" by (cases y) (auto dest: get_edge_cost_error)
  qed
  then show ?thesis by (simp add: get_path_cost_def bind_def)
qed




subsection \<open>Sessions\<close>

lemma frame_refl [simp]: "frame a a"
  by (simp add: frame_def)

lemma frame_trans: "frame a b \<Longrightarrow> frame b c \<Longrightarrow> frame a c"
  by (simp add: frame_def)

lemma add_path_req_Inr:
  assumes "add_path_req st r = Inr st'"
  shows "frame st st'" and "solver st' = solver st" and "reqs st' = reqs st @ [r]"
  using assms by (auto simp: add_path_req_def frame_def split: req.splits)

lemma push_alternative_appends:
  assumes "push_alternative st p pc sp s = Inr s'"
  shows "assertions s' = assertions s @ alternative_constraints st p pc sp"
  using assms
  by (auto simp: push_alternative_def alternative_constraints_def bind_def solver_add_def
      split: if_splits sum.splits)

lemma push_alternative_model:
  assumes "push_alternative st p pc sp s = Inr s'" and "model s = None"
  shows "model s' = None"
  using assms
  by (auto simp: push_alternative_def bind_def solver_add_def split: if_splits sum.splits)

lemma push_req_appends:
  assumes "push_req st r s = Inr s'"
  shows "assertions s' = assertions s @ req_constraints st r"
proof (cases r)
  case OtherReq
  then show ?thesis using assms by (simp add: push_req_def req_constraints_def)
next
  case (PathReq p)
  with assms obtain src rest where p: "p = src # rest"
    by (cases p) (auto simp: push_req_def)
  from assms PathReq p obtain pc sps where pc: "get_path_cost st p = Inr pc"
    and sps: "all_simple_paths (network_graph st) src (last p) = Inr sps"
    and run: "for_each (push_alternative st p pc) sps s = Inr s'"
    by (auto simp: push_req_def bind_Inr_iff)
  have "assertions s' = assertions s @ concat (map (alternative_constraints st p pc) sps)"
    by (rule for_each_appends [OF run]) (rule push_alternative_appends)
  then show ?thesis using PathReq pc sps p by (simp add: req_constraints_def)
qed

lemma push_req_model:
  assumes "push_req st r s = Inr s'" and "model s = None"
  shows "model s' = None"
proof (cases r)
  case OtherReq
  then show ?thesis using assms by (simp add: push_req_def)
next
  case (PathReq p)
  with assms obtain src rest where p: "p = src # rest"
    by (cases p) (auto simp: push_req_def)
  from assms PathReq p obtain pc sps where
    run: "for_each (push_alternative st p pc) sps s = Inr s'"
    by (auto simp: push_req_def bind_Inr_iff)
  show ?thesis
    by (rule for_each_invariant [where Q = "\<lambda>s. model s = None", OF run assms(2)])
      (rule push_alternative_model)
qed

lemma push_requirements_Inr:
  assumes "push_requirements st = Inr st'"
  shows "frame st st'" and "reqs st' = reqs st"
    and "assertions (solver st') =
           assertions (solver st) @ concat (map (req_constraints st) (reqs st))"
    and "model (solver st') = None"
proof -
  from assms obtain s where run: "for_each (push_req st) (reqs st) (solver_push (solver st)) = Inr s"
    and st': "st' = st\<lparr>solver := s\<rparr>"
    by (auto simp: push_requirements_def bind_Inr_iff)
  show "frame st st'" "reqs st' = reqs st" by (simp_all add: st' frame_def)
  have "assertions s =
          assertions (solver_push (solver st)) @ concat (map (req_constraints st) (reqs st))"
    by (rule for_each_appends [OF run]) (rule push_req_appends)
  then show "assertions (solver st') =
           assertions (solver st) @ concat (map (req_constraints st) (reqs st))"
    by (simp add: st' solver_push_def)
  have "model s = None"
    by (rule for_each_invariant [where Q = "\<lambda>s. model s = None", OF run])
      (simp_all add: solver_push_def push_req_model)
  then show "model (solver st') = None" by (simp add: st')
qed

lemma step_inv:
  assumes "step c a = Inr b"
  shows "frame a b" and "set (assertions (solver a)) \<subseteq> set (assertions (solver b))"
    and "consistent (solver a) \<Longrightarrow> consistent (solver b)"
proof -
  show "frame a b"
    using assms add_path_req_Inr(1) push_requirements_Inr(1)
    by (auto simp: step_def solved_def frame_def split: call.splits if_splits)
  show "set (assertions (solver a)) \<subseteq> set (assertions (solver b))"
    using assms add_path_req_Inr(2) push_requirements_Inr(3)
    by (cases c) (auto simp: step_def solved_def split: if_splits)
  show "consistent (solver b)" if "consistent (solver a)"
  proof (cases c)
    case (Add_path_req r)
    then show ?thesis using assms that add_path_req_Inr(2) by (auto simp: step_def)
  next
    case Push_requirements
    then show ?thesis using assms push_requirements_Inr(4) [of a b]
      by (simp add: step_def consistent_def)
  next
    case (Check m)
    then show ?thesis using assms
      by (auto simp: step_def solved_def consistent_def sat_model_def split: if_splits)
  qed
qed

lemma steps_inv:
  assumes "for_each step calls a = Inr b"
  shows "frame a b \<and> set (assertions (solver a)) \<subseteq> set (assertions (solver b)) \<and>
         (consistent (solver a) \<longrightarrow> consistent (solver b))"
proof (rule for_each_invariant [where Q = "\<lambda>b. frame a b \<and>
         set (assertions (solver a)) \<subseteq> set (assertions (solver b)) \<and>
         (consistent (solver a) \<longrightarrow> consistent (solver b))", OF assms])
  show "frame a a \<and> set (assertions (solver a)) \<subseteq> set (assertions (solver a)) \<and>
         (consistent (solver a) \<longrightarrow> consistent (solver a))" by simp
next
  fix y s s'
  assume "step y s = Inr s'" and "frame a s \<and>
         set (assertions (solver a)) \<subseteq> set (assertions (solver s)) \<and>
         (consistent (solver a) \<longrightarrow> consistent (solver s))"
  then show "frame a s' \<and>
         set (assertions (solver a)) \<subseteq> set (assertions (solver s')) \<and>
         (consistent (solver a) \<longrightarrow> consistent (solver s'))"
    using step_inv [of y s s'] frame_trans [of a s s'] by blast
qed

lemma session_inv:
  assumes "session cfgs ng slv names nets calls = Inr st"
  obtains st0 where "init cfgs ng slv names nets = Inr st0" and "frame st0 st"
    and "set (assertions (solver st0)) \<subseteq> set (assertions (solver st))"
    and "consistent (solver st0) \<Longrightarrow> consistent (solver st)"
proof -
  from assms obtain st0 where i: "init cfgs ng slv names nets = Inr st0"
    and run: "for_each step calls st0 = Inr st"
    by (auto simp: session_def bind_Inr_iff)
  from steps_inv [OF run] i that show ?thesis by blast
qed

subsection \<open>The Topology Graph and the input graph\<close>

lemma set_edge_cost_Inr:
  assumes "set_edge_cost g a b c = Inr g'"
  shows "node g' = node g" and "has_edge g' x y = has_edge g x y"
  using assms
  by (auto simp: set_edge_cost_def bind_Inr_iff getitem_Inr_iff has_edge_def update_conv'
      split: option.splits if_splits)

lemma annotate_cost_Inr:
  assumes "annotate_cost tmp g = Inr g'"
  shows "node g' = node g" and "has_edge g' x y = has_edge g x y"
  using assms set_edge_cost_Inr [of g _ _ _ g']
  by (auto simp: annotate_cost_def split: config.splits)

lemma annotate_costs_Inr:
  assumes "for_each annotate_cost cfgs g = Inr g'"
  shows "node g' = node g \<and> (\<forall>x y. has_edge g' x y = has_edge g x y)"
  by (rule for_each_invariant [where Q = "\<lambda>h. node h = node g \<and>
        (\<forall>x y. has_edge h x y = has_edge g x y)", OF assms])
    (auto simp: annotate_cost_Inr)

lemma load_graph_Some:
  assumes "load_graph (Some g_in) = Inr g" and "node g \<noteq> []"
  shows "adj g = adj g_in" and "set (node g) \<subseteq> set (node g_in)"
proof -
  have ne: "node g_in \<noteq> []"
  proof
    assume "node g_in = []"
    then have "g = DiGraph" using assms(1) by (simp add: load_graph_def DiGraph_def)
    then show False using assms(2) by (simp add: DiGraph_def)
  qed
  then have run: "load_graph_loop (node g_in) g_in = Inr g"
    using assms(1) by (simp add: load_graph_def)
  from load_graph_loop_props [OF run] show "adj g = adj g_in" "set (node g) \<subseteq> set (node g_in)"
    by simp_all
qed

text \<open>The edges of the Topology Graph of a session are those of the input graph.\<close>

lemma init_has_edge:
  assumes "init cfgs (Some g_in) slv names nets = Inr st" and "has_node (network_graph st) n"
  shows "has_edge (network_graph st) x y = has_edge g_in x y"
proof -
  from init_fields(5) [OF assms(1)] obtain g0 where g0: "load_graph (Some g_in) = Inr g0"
    and ann: "for_each annotate_cost cfgs g0 = Inr (network_graph st)" by blast
  from annotate_costs_Inr [OF ann] have nd: "node (network_graph st) = node g0"
    and he: "has_edge (network_graph st) x y = has_edge g0 x y" by simp_all
  from assms(2) nd have "node g0 \<noteq> []" by (auto simp: has_node_def nodes_def)
  from load_graph_Some(1) [OF g0 this] he show ?thesis by (simp add: has_edge_def)
qed

subsection \<open>The state of the solver after the construction\<close>

lemma read_pair_model:
  "read_pair st a b s = Inr s' \<Longrightarrow> model s' = None"
  by (auto simp: read_pair_def bind_Inr_iff solver_add_def Let_def
      split: if_splits option.splits)

lemma read_src_model:
  assumes "read_src st a s = Inr s'"
  shows "s' = s \<or> model s' = None"
proof (cases "a \<in> set (network_names st)")
  case True
  then show ?thesis using assms by (simp add: read_src_def)
next
  case False
  then have run: "for_each (read_dst st a) (nodes (network_graph st)) s = Inr s'"
    using assms by (simp add: read_src_def)
  show ?thesis
    by (rule for_each_invariant [where Q = "\<lambda>b. b = s \<or> model b = None", OF run])
      (auto simp: read_dst_def read_pair_model split: if_splits)
qed

lemma baseline_nonempty:
  assumes "u \<in> set (nodes g)" "u \<notin> set nets" "v \<in> set (nodes g)" "v \<notin> set nets"
  shows "baseline g nets \<noteq> []"
proof -
  have "baseline_pair g u v \<noteq> []" by (simp add: baseline_pair_def)
  then obtain f where "f \<in> set (baseline_pair g u v)" by (cases "baseline_pair g u v") auto
  then have "f \<in> set (baseline g nets)" using assms unfolding baseline_mem by blast
  then show ?thesis by auto
qed

lemma init_model_None:
  assumes "init cfgs ng slv names nets = Inr st" and "router st u" and "router st v"
  shows "model (solver st) = None"
proof -
  let ?s0 = "case slv of Some s \<Rightarrow> s | None \<Rightarrow> Solver"
  note f = init_fields [OF assms(1)]
  have "solver st = ?s0 \<or> model (solver st) = None"
  proof (rule for_each_invariant [where Q = "\<lambda>b. b = ?s0 \<or> model b = None", OF f(6)])
    show "?s0 = ?s0 \<or> model ?s0 = None" by simp
  next
    fix y a b
    assume "read_src st y a = Inr b" and "a = ?s0 \<or> model a = None"
    then show "b = ?s0 \<or> model b = None"
      using read_src_model [of st y a b] by auto
  qed
  moreover have "baseline (network_graph st) nets \<noteq> []"
    using assms(2,3) f(2) baseline_nonempty [of u "network_graph st" nets v]
    by (simp add: router_def has_node_def)
  then have "solver st \<noteq> ?s0"
    using init_assertions [OF assms(1)] by auto
  ultimately show ?thesis by simp
qed

lemma init_routers_registered:
  assumes "init cfgs ng slv names nets = Inr st" and "router st u" and "router st v"
  shows "u \<in> set names \<and> v \<in> set names"
proof (rule ccontr)
  assume neg: "\<not> (u \<in> set names \<and> v \<in> set names)"
  note f = init_fields [OF assms(1)]
  have pair: "\<exists>e. read_pair st u v s = Inl e" for s
    using neg by (auto simp: read_pair_def get_vertex_registered [OF f(1)] bind_def)
  have dst: "\<exists>e. read_dst st u v s = Inl e" for s
    using pair assms(3) by (simp add: read_dst_def router_def)
  have "\<exists>e. for_each (read_dst st u) (nodes (network_graph st)) s = Inl e" for s
    by (rule for_each_fails [where f = "read_dst st u" and x = v])
      (use assms(3) dst in \<open>auto simp: router_def has_node_def\<close>)
  then have src: "\<exists>e. read_src st u s = Inl e" for s
    using assms(2) by (simp add: read_src_def router_def)
  have "\<exists>e. for_each (read_src st) (nodes (network_graph st))
           (case slv of Some s \<Rightarrow> s | None \<Rightarrow> Solver) = Inl e"
    by (rule for_each_fails [where f = "read_src st" and x = u])
      (use assms(2) src in \<open>auto simp: router_def has_node_def\<close>)
  then show False using f(6) by auto
qed

subsection \<open>Edges between routers\<close>

lemma baseline_pair_mem:
  assumes "u \<in> set (nodes g)" "u \<notin> set nets" "v \<in> set (nodes g)" "v \<notin> set nets"
    and "f \<in> set (baseline_pair g u v)"
  shows "f \<in> set (baseline g nets)"
  using assms unfolding baseline_mem by blast

lemma session_baseline:
  assumes "session cfgs ng slv names nets calls = Inr st"
    and "router st u" and "router st v"
    and "f \<in> set (baseline_pair (network_graph st) u v)"
  shows "f \<in> set (assertions (solver st))"
proof -
  from session_inv [OF assms(1)] obtain st0 where i: "init cfgs ng slv names nets = Inr st0"
    and fr: "frame st0 st"
    and sub: "set (assertions (solver st0)) \<subseteq> set (assertions (solver st))" by blast
  from fr assms(2,3) init_fields(2) [OF i]
  have "u \<in> set (nodes (network_graph st0))" "u \<notin> set nets"
    "v \<in> set (nodes (network_graph st0))" "v \<notin> set nets"
    by (simp_all add: frame_def router_def has_node_def)
  then have "f \<in> set (baseline (network_graph st0) nets)"
    using assms(4) fr by (auto simp: frame_def intro: baseline_pair_mem)
  then show ?thesis using init_assertions [OF i] sub by auto
qed

lemma session_model_sat:
  assumes "session cfgs ng slv names nets calls = Inr st"
    and "router st u" and "router st v"
    and "model (solver st) = Some m"
  shows "sat_model (solver st) m"
proof -
  from session_inv [OF assms(1)] obtain st0 where i: "init cfgs ng slv names nets = Inr st0"
    and fr: "frame st0 st"
    and c: "consistent (solver st0) \<Longrightarrow> consistent (solver st)" by blast
  from fr assms(2,3) have "router st0 u" "router st0 v" by (simp_all add: frame_def router_def)
  from init_model_None [OF i this] have "consistent (solver st0)" by (simp add: consistent_def)
  from c [OF this] assms(4) show ?thesis by (simp add: consistent_def)
qed

lemma session_registered:
  assumes "session cfgs ng slv names nets calls = Inr st"
  shows "name_to_vertex st = map (\<lambda>n. (n, Vertex n)) names"
    and "network_names st = nets" and "networks st = map Vertex nets"
    and "router st u \<Longrightarrow> router st v \<Longrightarrow> u \<in> set names \<and> v \<in> set names"
proof -
  from session_inv [OF assms(1)] obtain st0 where i: "init cfgs ng slv names nets = Inr st0"
    and fr: "frame st0 st" by blast
  show "name_to_vertex st = map (\<lambda>n. (n, Vertex n)) names"
    "network_names st = nets" "networks st = map Vertex nets"
    using init_fields(1-3) [OF i] fr by (simp_all add: frame_def)
  show "u \<in> set names \<and> v \<in> set names" if "router st u" "router st v"
  proof -
    from fr that have "router st0 u" "router st0 v" by (simp_all add: frame_def router_def)
    from init_routers_registered [OF i this] show ?thesis .
  qed
qed

lemma session_has_edge:
  assumes "session cfgs (Some g_in) slv names nets calls = Inr st" and "router st n"
  shows "has_edge (network_graph st) x y = has_edge g_in x y"
proof -
  from session_inv [OF assms(1)] obtain st0 where
    i: "init cfgs (Some g_in) slv names nets = Inr st0" and fr: "frame st0 st" by blast
  from fr assms(2) have "has_node (network_graph st0) n" by (simp add: frame_def router_def)
  from init_has_edge [OF i this] fr show ?thesis by (simp add: frame_def)
qed

lemma sat_model_holds:
  "sat_model s m \<Longrightarrow> f \<in> set (assertions s) \<Longrightarrow> holds m f"
  by (simp add: sat_model_def list_all_iff)

lemma get_output_configs_model:
  "get_output_configs st = Inr out \<Longrightarrow> \<exists>m. model (solver st) = Some m"
  by (auto simp: get_output_configs_def solver_model_def bind_def split: option.splits)

text \<open>
  C5. After a session with a satisfiable solve, for routers \<open>u\<close> and \<open>v\<close>, the list of
  \<^verbatim>\<open>get_output_configs\<close> has a triple for \<open>(u, v)\<close> exactly when the input graph has the
  edge from \<open>u\<close> to \<open>v\<close>. In particular it has none for a pair of routers that is no edge
  of the input topology: the baseline encoding asserts the edge predicate for the links
  and its negation for every other pair of routers, and every model the solver returns
  satisfies these assertions.
\<close>

theorem output_configs_edges_are_physical_links:
  assumes "session cfgs (Some g_in) slv names nets calls = Inr st"
    and "router st u" and "router st v"
    and "get_output_configs st = Inr out"
  shows "(\<exists>c. SetOSPFEdgeCost u v c \<in> set out) \<longleftrightarrow> has_edge g_in u v"
proof -
  from get_output_configs_model [OF assms(4)] obtain m where m: "model (solver st) = Some m" ..
  have sat: "sat_model (solver st) m"
    by (rule session_model_sat [OF assms(1-3) m])
  note reg = session_registered [OF assms(1)]
  have names: "u \<in> set names" "v \<in> set names" using reg(4) [OF assms(2,3)] by simp_all
  have mem: "(\<exists>c. SetOSPFEdgeCost u v c \<in> set out) \<longleftrightarrow> edge_interp m (Vertex u) (Vertex v)"
    using output_configs_mem [OF m reg(1) assms(4)] names by simp
  have he: "has_edge (network_graph st) u v = has_edge g_in u v"
    by (rule session_has_edge [OF assms(1,2)])
  show ?thesis
  proof (cases "has_edge g_in u v")
    case True
    then have "EdgeApp (Vertex u) (Vertex v) \<in> set (baseline_pair (network_graph st) u v)"
      using he by (simp add: baseline_pair_def)
    from sat_model_holds [OF sat session_baseline [OF assms(1-3) this]]
    have "holds m (EdgeApp (Vertex u) (Vertex v))" .
    then show ?thesis using True mem by simp
  next
    case False
    then have "Neg (EdgeApp (Vertex u) (Vertex v)) \<in> set (baseline_pair (network_graph st) u v)"
      using he by (simp add: baseline_pair_def)
    from sat_model_holds [OF sat session_baseline [OF assms(1-3) this]]
    have "holds m (Neg (EdgeApp (Vertex u) (Vertex v)))" .
    then show ?thesis using False mem by simp
  qed
qed

lemma abc_init:
  "\<exists>st. init [] (Some abc_graph) None abc_names abc_nets = Inr st \<and>
        sat_model (solver st) abc_model \<and> network_graph st = abc_graph \<and>
        network_names st = abc_nets"
  by (simp add: session_defs abc_graph_def abc_names_def abc_nets_def graph_defs abc_model_def)

lemma abc_session:
  "\<exists>st. session [] (Some abc_graph) None abc_names abc_nets [Check abc_model] = Inr st \<and>
        network_graph st = abc_graph \<and> network_names st = abc_nets \<and>
        model (solver st) = Some abc_model"
proof -
  from abc_init obtain st0 where i: "init [] (Some abc_graph) None abc_names abc_nets = Inr st0"
    and s: "sat_model (solver st0) abc_model" and g: "network_graph st0 = abc_graph"
    and n: "network_names st0 = abc_nets" by blast
  from session_check [OF i s] g n show ?thesis by simp
qed

lemma abc_routers:
  assumes "network_graph st = abc_graph" and "network_names st = abc_nets"
  shows "router st ''A''" "router st ''B''" "router st ''C''"
  using assms by (simp_all add: router_def abc_graph_def abc_nets_def graph_defs)

theorem output_configs_edges_are_physical_links_witness:
  "(case session [] (Some abc_graph) None abc_names abc_nets [Check abc_model] of
      Inl e \<Rightarrow> False
    | Inr st \<Rightarrow> router st ''C'' \<and> router st ''A'' \<and>
        (case get_output_configs st of
           Inl e \<Rightarrow> False
         | Inr out \<Rightarrow>
             ((\<exists>c. SetOSPFEdgeCost ''C'' ''A'' c \<in> set out) \<longleftrightarrow> has_edge abc_graph ''C'' ''A'') \<and>
             \<not> has_edge abc_graph ''C'' ''A'' \<and>
             \<not> (\<exists>c. SetOSPFEdgeCost ''C'' ''A'' c \<in> set out)))"
proof -
  from abc_session obtain st where
    st: "session [] (Some abc_graph) None abc_names abc_nets [Check abc_model] = Inr st"
    and g: "network_graph st = abc_graph" and n: "network_names st = abc_nets"
    and m: "model (solver st) = Some abc_model" by blast
  note r = abc_routers [OF g n]
  from get_output_configs_total [OF m] obtain out where out: "get_output_configs st = Inr out" ..
  have ne: "\<not> has_edge abc_graph ''C'' ''A''" by (simp add: abc_graph_def graph_defs)
  show ?thesis
    using output_configs_edges_are_physical_links [OF st r(3) r(1) out] st r out ne by simp
qed

subsection \<open>The enumeration of simple paths\<close>

lemma has_edge_neighbors: "has_edge g u v \<longleftrightarrow> v \<in> set (neighbors g u)"
proof (cases "map_of (adj g) u")
  case None
  then show ?thesis by (simp add: has_edge_def neighbors_def)
next
  case (Some nbrs)
  have "(map_of nbrs v \<noteq> None) = (v \<in> fst ` set nbrs)"
    using map_of_eq_None_iff [of nbrs v] by auto
  then show ?thesis using Some by (simp add: has_edge_def neighbors_def)
qed

lemma hops_Cons2 [simp]: "hops (a # b # r) = (a, b) # hops (b # r)"
  by (simp add: hops_def)

lemma hops_single [simp]: "hops [a] = []" "hops [] = []"
  by (simp_all add: hops_def)

lemma hops_append:
  "xs \<noteq> [] \<Longrightarrow> ys \<noteq> [] \<Longrightarrow> hops (xs @ ys) = hops xs @ (last xs, hd ys) # hops ys"
proof (induction xs rule: induct_list012)
  case 1
  then show ?case by simp
next
  case (2 x)
  then show ?case by (cases ys) simp_all
next
  case (3 x y zs)
  then show ?case by simp
qed

text \<open>Every path of the enumeration extends \<open>visited\<close> by new nodes along edges and ends
  at the target, which it meets nowhere before.\<close>

lemma simple_paths_from_sound:
  assumes "p \<in> set (simple_paths_from g t k visited)" and "visited \<noteq> []"
  shows "\<exists>rest. p = visited @ rest \<and> rest \<noteq> [] \<and> last rest = t \<and> length rest \<le> k \<and>
           distinct (butlast rest) \<and> t \<notin> set (butlast rest) \<and>
           set (butlast rest) \<inter> set visited = {} \<and>
           list_all (\<lambda>(a, b). has_edge g a b) (hops (last visited # rest))"
  using assms
proof (induction k arbitrary: visited)
  case 0
  then show ?case by simp
next
  case (Suc k)
  from Suc.prems(1) obtain child where ch: "child \<in> set (neighbors g (last visited))"
    and p: "p \<in> set (if child = t then [visited @ [t]]
        else if child \<in> set visited then []
        else simple_paths_from g t k (visited @ [child]))"
    by auto
  show ?case
  proof (cases "child = t")
    case True
    then have "p = visited @ [t]" using p by simp
    then show ?thesis using ch True by (auto simp: has_edge_neighbors)
  next
    case False
    then have nv: "child \<notin> set visited"
      and rec: "p \<in> set (simple_paths_from g t k (visited @ [child]))"
      using p by (auto split: if_splits)
    from Suc.IH [OF rec] obtain rest where r: "p = (visited @ [child]) @ rest" "rest \<noteq> []"
      "last rest = t" "length rest \<le> k" "distinct (butlast rest)" "t \<notin> set (butlast rest)"
      "set (butlast rest) \<inter> set (visited @ [child]) = {}"
      "list_all (\<lambda>(a, b). has_edge g a b) (hops (last (visited @ [child]) # rest))"
      by auto
    let ?rest = "child # rest"
    have "p = visited @ ?rest" using r(1) by simp
    moreover have "last ?rest = t" using r(2,3) by simp
    moreover have "length ?rest \<le> Suc k" using r(4) by simp
    moreover have "butlast ?rest = child # butlast rest" using r(2) by simp
    moreover have "child \<notin> set (butlast rest)" using r(7) by auto
    moreover have "list_all (\<lambda>(a, b). has_edge g a b) (hops (last visited # ?rest))"
      using r(8) ch by (simp add: has_edge_neighbors)
    ultimately show ?thesis using r(5,6,7) nv False
      by (intro exI [of _ ?rest]) auto
  qed
qed

text \<open>Every simple path to the target within the bound is enumerated.\<close>

lemma simple_paths_from_complete:
  assumes "rest \<noteq> []" and "last rest = t" and "length rest \<le> k"
    and "distinct rest" and "set rest \<inter> set visited = {}" and "visited \<noteq> []"
    and "list_all (\<lambda>(a, b). has_edge g a b) (hops (last visited # rest))"
  shows "visited @ rest \<in> set (simple_paths_from g t k visited)"
  using assms
proof (induction rest arbitrary: visited k)
  case Nil
  then show ?case by simp
next
  case (Cons c rest)
  from Cons.prems(3) obtain k' where k: "k = Suc k'" "length rest \<le> k'"
    by (cases k) auto
  from Cons.prems(7) have ch: "c \<in> set (neighbors g (last visited))"
    by (cases rest) (simp_all add: has_edge_neighbors)
  show ?case
  proof (cases "rest = []")
    case True
    then have "c = t" using Cons.prems(2) by simp
    then show ?thesis using ch True k by auto
  next
    case False
    then have ct: "c \<noteq> t" using Cons.prems(2,4) by auto
    have cv: "c \<notin> set visited" using Cons.prems(5) by auto
    have "(visited @ [c]) @ rest \<in> set (simple_paths_from g t k' (visited @ [c]))"
    proof (rule Cons.IH [OF False])
      show "last rest = t" using Cons.prems(2) False by simp
      show "length rest \<le> k'" by (rule k(2))
      show "distinct rest" using Cons.prems(4) by simp
      show "set rest \<inter> set (visited @ [c]) = {}" using Cons.prems(4,5) by auto
      show "visited @ [c] \<noteq> []" by simp
      show "list_all (\<lambda>(a, b). has_edge g a b) (hops (last (visited @ [c]) # rest))"
        using Cons.prems(7) False by (cases rest) simp_all
    qed
    then show ?thesis using ch ct cv k by auto
  qed
qed

subsection \<open>The cost of a path\<close>




lemma map_err_each:
  assumes "map_err f xs = Inr ys" and "x \<in> set xs"
  shows "\<exists>y. f x = Inr y"
  using assms
  by (induction xs arbitrary: ys) (auto simp: bind_Inr_iff)




lemma get_path_cost_edges:
  assumes "get_path_cost st p = Inr e" and "(u, v) \<in> set (hops p)"
  shows "has_edge (network_graph st) u v"
proof (rule ccontr)
  assume "\<not> has_edge (network_graph st) u v"
  from get_path_cost_no_edge_KeyError [OF assms(2) this] assms(1) show False by simp
qed

subsection \<open>The constraints of a requirement\<close>

lemma for_each_each:
  assumes "for_each f xs s = Inr s'" and "x \<in> set xs"
  shows "\<exists>a b. f x a = Inr b"
proof (rule ccontr)
  assume "\<not> (\<exists>a b. f x a = Inr b)"
  then have fails: "\<And>a. \<exists>e. f x a = Inl e" by (metis sum.exhaust)
  have "\<exists>e. for_each f xs s = Inl e"
    by (rule for_each_fails [OF assms(2)]) (rule fails)
  then show False using assms(1) by auto
qed

lemma distinct_length_le:
  assumes "distinct p" and "set p \<subseteq> set xs"
  shows "length p \<le> length xs"
proof -
  have "length p = card (set p)" using assms(1) by (simp add: distinct_card)
  also have "\<dots> \<le> card (set xs)" using assms(2) by (simp add: card_mono)
  also have "\<dots> \<le> length xs" by (rule card_length)
  finally show ?thesis .
qed



lemma simple_path_enumerated:
  assumes "simple_path g sp" and "2 \<le> length sp" and "set sp \<subseteq> set (nodes g)"
  shows "sp \<in> set (simple_paths_from g (last sp) (length (node g) - 1) [hd sp])"
proof -
  from assms(2) obtain a rest where sp: "sp = a # rest" and ne: "rest \<noteq> []"
    by (cases sp) (auto simp: Suc_le_eq)
  from assms(1) have d: "distinct sp"
    and e: "list_all (\<lambda>(u, v). has_edge g u v) (hops sp)"
    by (simp_all add: simple_path_def)
  have "length sp \<le> length (nodes g)" by (rule distinct_length_le [OF d assms(3)])
  then have len: "length rest \<le> length (node g) - 1" by (simp add: sp nodes_def)
  have "[a] @ rest \<in> set (simple_paths_from g (last rest) (length (node g) - 1) [a])"
    by (rule simple_paths_from_complete [OF ne refl len]) (use d e sp in auto)
  then show ?thesis using sp ne by simp
qed




subsection \<open>Paths of the enumeration\<close>

lemma has_path_True_iff:
  "has_path g s t = Inr True \<longleftrightarrow>
     has_node g s \<and> has_node g t \<and>
     (s = t \<or> simple_paths_from g t (length (node g) - 1) [s] \<noteq> [])"
  by (auto simp: has_path_def)

lemma has_path_Inr_nodes:
  "has_path g s t = Inr r \<Longrightarrow> has_node g s \<and> has_node g t"
  by (auto simp: has_path_def split: if_splits)

lemma enumerated_simple:
  assumes "p \<in> set (simple_paths_from g t k [s])" and "s \<noteq> t"
  shows "simple_path g p \<and> hd p = s \<and> last p = t \<and> 2 \<le> length p \<and> length p \<le> Suc k"
proof -
  from simple_paths_from_sound [OF assms(1)] obtain rest where r: "p = [s] @ rest"
    "rest \<noteq> []" "last rest = t" "length rest \<le> k" "distinct (butlast rest)"
    "t \<notin> set (butlast rest)" "set (butlast rest) \<inter> set [s] = {}"
    "list_all (\<lambda>(a, b). has_edge g a b) (hops (last [s] # rest))"
    by auto
  have rest: "rest = butlast rest @ [t]" using r(2,3) by (metis append_butlast_last_id)
  have "distinct rest"
    using r(5,6) by (subst rest) simp
  moreover have "s \<notin> set rest"
    using r(7) assms(2) by (subst rest) auto
  ultimately have "distinct p" using r(1) by simp
  moreover have "2 \<le> length p" using r(1,2) by (cases rest) auto
  ultimately show ?thesis using r by (simp add: simple_path_def)
qed

lemma simple_path_suffix:
  assumes "simple_path g (pre @ q)"
  shows "simple_path g q"
proof (cases "pre = [] \<or> q = []")
  case True
  then show ?thesis using assms by (auto simp: simple_path_def)
next
  case False
  then show ?thesis using assms by (simp add: simple_path_def hops_append)
qed

lemma simple_path_has_path:
  assumes "simple_path g q" and "q \<noteq> []" and "\<And>n. n \<in> set q \<Longrightarrow> has_node g n"
  shows "has_path g (hd q) (last q) = Inr True"
proof (cases "length q < 2")
  case True
  then obtain a where "q = [a]" using assms(2) by (cases q) auto
  then show ?thesis using assms(3) by (simp add: has_path_True_iff)
next
  case False
  then have len: "2 \<le> length q" by simp
  have "set q \<subseteq> set (nodes g)" using assms(3) by (auto simp: has_node_def)
  from simple_path_enumerated [OF assms(1) len this]
  have "simple_paths_from g (last q) (length (node g) - 1) [hd q] \<noteq> []" by auto
  moreover have "hd q \<in> set q" "last q \<in> set q" using assms(2) by simp_all
  ultimately show ?thesis using assms(3) by (simp add: has_path_True_iff)
qed

lemma hops_split:
  assumes "(a, b) \<in> set (hops p)"
  shows "\<exists>pre suf. p = pre @ a # b # suf"
  using assms
proof (induction p rule: induct_list012)
  case 1
  then show ?case by simp
next
  case (2 x)
  then show ?case by simp
next
  case (3 x y zs)
  show ?case
  proof (cases "(a, b) = (x, y)")
    case True
    then show ?thesis by (intro exI [of _ "[]"] exI [of _ zs]) simp
  next
    case False
    then have "(a, b) \<in> set (hops (y # zs))" using "3.prems" by auto
    from "3.IH"(2) [OF this] obtain pre suf where "y # zs = pre @ a # b # suf" by blast
    then have "x # y # zs = (x # pre) @ a # b # suf" by simp
    then show ?thesis by blast
  qed
qed

text \<open>From both ends of a hop of a simple path the end of the path is reachable.\<close>

lemma simple_path_hop:
  assumes "simple_path g p" and "(a, b) \<in> set (hops p)"
    and "\<And>n. n \<in> set p \<Longrightarrow> has_node g n"
  shows "has_edge g a b" and "has_path g a (last p) = Inr True"
    and "has_path g b (last p) = Inr True"
proof -
  show "has_edge g a b" using assms(1,2) by (auto simp: simple_path_def list_all_iff)
  from hops_split [OF assms(2)] obtain pre suf where p: "p = pre @ a # b # suf" by blast
  have na: "has_node g n" if "n \<in> set (a # b # suf)" for n
    using assms(3) p that by auto
  have nb: "has_node g n" if "n \<in> set (b # suf)" for n
    using assms(3) p that by auto
  have la: "last (a # b # suf) = last p" and lb: "last (b # suf) = last p"
    using p by simp_all
  have "simple_path g (a # b # suf)" using assms(1) p simple_path_suffix by blast
  then have "has_path g (hd (a # b # suf)) (last (a # b # suf)) = Inr True"
    by (rule simple_path_has_path) (simp, rule na)
  then show "has_path g a (last p) = Inr True" unfolding la by simp
  have "simple_path g (b # suf)"
    using assms(1) p simple_path_suffix [of g "pre @ [a]" "b # suf"] by simp
  then have "has_path g (hd (b # suf)) (last (b # suf)) = Inr True"
    by (rule simple_path_has_path) (simp, rule nb)
  then show "has_path g b (last p) = Inr True" unfolding lb by simp
qed

lemma first_min_mem: "first_min f b xs \<in> set (b # xs)"
proof (induction xs arbitrary: b)
  case Nil
  then show ?case by simp
next
  case (Cons a xs)
  from Cons.IH [of "if f a < f b then a else b"] show ?case
    by (auto split: if_splits)
qed

lemma shortest_path_Inr:
  assumes "shortest_path g s t w = Inr p"
  shows "p = [s] \<or> (s \<noteq> t \<and> p \<in> set (simple_paths_from g t (length (node g) - 1) [s]))"
proof (cases "s = t")
  case True
  then show ?thesis using assms by (auto simp: shortest_path_def split: if_splits)
next
  case False
  then obtain q qs where q: "simple_paths_from g t (length (node g) - 1) [s] = q # qs"
    and p: "p = first_min (path_weight g w) q qs"
    using assms by (auto simp: shortest_path_def split: if_splits list.splits)
  then show ?thesis using False first_min_mem [of "path_weight g w" q qs] by simp
qed

subsection \<open>Routing trees\<close>

lemma nodes_add_node: "set (nodes (add_node g n a)) = insert n (set (nodes g))"
  by (auto simp: add_node_def nodes_def dom_update)

lemma nodes_add_edge: "set (nodes (add_edge g u v a)) \<subseteq> set (nodes g) \<union> {u, v}"
  by (auto simp: add_edge_def Let_def nodes_def add_node_def dom_update)

lemma path_node_on_hop:
  assumes "n \<in> set p" and "2 \<le> length p"
  shows "\<exists>a b. (a, b) \<in> set (hops p) \<and> (n = a \<or> n = b)"
  using assms
proof (induction p rule: induct_list012)
  case 1
  then show ?case by simp
next
  case (2 x)
  then show ?case by simp
next
  case (3 x y zs)
  show ?case
  proof (cases "n = x \<or> n = y")
    case True
    then show ?thesis by auto
  next
    case False
    then have "n \<in> set (y # zs)" "2 \<le> length (y # zs)"
      using "3.prems" by (cases zs; auto)+
    from "3.IH"(2) [OF this] show ?thesis by auto
  qed
qed

lemma tree_ok_route_hop:
  assumes hop: "route_hop st m g_phy (a, b) g = Inr g'"
    and ntv: "name_to_vertex st = map (\<lambda>n. (n, Vertex n)) names"
    and ok: "tree_ok m g_phy d g"
    and e: "has_edge g_phy a b"
    and ra: "has_path g_phy a d = Inr True" and rb: "has_path g_phy b d = Inr True"
  shows "tree_ok m g_phy d g'"
proof -
  let ?g1 = "if \<not> has_node g a then add_node g a (get_vertex_attributes g_phy a) else g"
  let ?g2 = "if \<not> has_node ?g1 b then add_node ?g1 b (get_vertex_attributes g_phy b) else ?g1"
  let ?c = "edge_cost_interp m (Vertex a) (Vertex b)"
  from hop have g': "g' = add_edge ?g2 a b [(''cost'', ?c)]"
    by (auto simp: route_hop_def Let_def bind_Inr_iff get_vertex_registered [OF ntv]
        split: if_splits)
  have n2: "set (nodes ?g2) \<subseteq> set (nodes g) \<union> {a, b}"
    by (auto simp: nodes_add_node)
  have "set (nodes g') \<subseteq> set (nodes g) \<union> {a, b}"
    unfolding g' using nodes_add_edge [of ?g2 a b] n2 by blast
  then have nodes: "\<forall>n \<in> set (nodes g'). has_path g_phy n d = Inr True"
    using ok ra rb by (auto simp: tree_ok_def)
  have e2: "edge_data ?g2 x y = edge_data g x y" for x y by simp
  have old: "edge_data g a b = Inl KeyError \<or> edge_data g a b = Inr [(''cost'', ?c)]"
    using ok unfolding tree_ok_def by blast
  have "edge_data g' x y = Inl KeyError \<or>
         (edge_data g' x y = Inr [(''cost'', edge_cost_interp m (Vertex x) (Vertex y))] \<and>
          has_edge g_phy x y)" for x y
  proof (cases "x = a \<and> y = b")
    case True
    then show ?thesis using old e by (auto simp: g' edge_data_add_edge e2)
  next
    case False
    then have "edge_data g' x y = edge_data g x y"
      by (auto simp: g' edge_data_add_edge e2)
    then show ?thesis using ok unfolding tree_ok_def by metis
  qed
  with nodes show ?thesis unfolding tree_ok_def by blast
qed

lemma tree_ok_route_node:
  assumes rn: "route_node st m g_phy d nv g = Inr g'"
    and ntv: "name_to_vertex st = map (\<lambda>n. (n, Vertex n)) names"
    and ok: "tree_ok m g_phy d g"
    and wf: "\<And>x y. has_edge g_phy x y \<Longrightarrow> has_node g_phy x \<and> has_node g_phy y"
  shows "tree_ok m g_phy d g'"
proof -
  from rn obtain r where r: "has_path g_phy (fst nv) d = Inr r"
    by (auto simp: route_node_def bind_Inr_iff)
  show ?thesis
  proof (cases r)
    case False
    then show ?thesis using rn r ok by (simp add: route_node_def bind_def)
  next
    case True
    with rn r obtain p where p: "shortest_path g_phy (fst nv) d ''cost'' = Inr p"
      and run: "for_each (route_hop st m g_phy) (hops p) g = Inr g'"
      by (auto simp: route_node_def bind_Inr_iff)
    from shortest_path_Inr [OF p] show ?thesis
    proof
      assume "p = [fst nv]"
      then show ?thesis using run ok by simp
    next
      assume "fst nv \<noteq> d \<and>
        p \<in> set (simple_paths_from g_phy d (length (node g_phy) - 1) [fst nv])"
      from enumerated_simple [OF conjunct2 [OF this] conjunct1 [OF this]]
      have sp: "simple_path g_phy p" and last: "last p = d" and len: "2 \<le> length p"
        by simp_all
      have nodes: "has_node g_phy n" if "n \<in> set p" for n
      proof -
        from path_node_on_hop [OF that len] obtain a b where
          "(a, b) \<in> set (hops p)" "n = a \<or> n = b" by blast
        moreover from this(1) sp have "has_edge g_phy a b"
          by (auto simp: simple_path_def list_all_iff)
        ultimately show ?thesis using wf by blast
      qed
      show ?thesis
      proof (rule for_each_invariant [where Q = "tree_ok m g_phy d", OF run ok])
        fix y s s'
        assume y: "y \<in> set (hops p)" and h: "route_hop st m g_phy y s = Inr s'"
          and s: "tree_ok m g_phy d s"
        obtain a b where ab: "y = (a, b)" by (cases y)
        from simple_path_hop [OF sp y [unfolded ab] nodes] last
        have "has_edge g_phy a b" "has_path g_phy a d = Inr True"
          "has_path g_phy b d = Inr True" by simp_all
        from tree_ok_route_hop [OF h [unfolded ab] ntv s this] show "tree_ok m g_phy d s'" .
      qed
    qed
  qed
qed

lemma tree_ok_empty: "tree_ok m g_phy d (DiGraph\<lparr>graph := a\<rparr>)"
  by (simp add: tree_ok_def DiGraph_def nodes_def edge_data_def getitem_def bind_def)

lemma tree_ok_route_net:
  assumes rn: "route_net st m g_phy v graphs = Inr graphs'"
    and ntv: "name_to_vertex st = map (\<lambda>n. (n, Vertex n)) names"
    and md: "model (solver st) = Some m"
    and phy: "get_output_network_graph st = Inr g_phy"
  shows "\<exists>g'. graphs' = AList.update (get_name v) g' graphs \<and> tree_ok m g_phy (get_name v) g'"
proof -
  let ?d = "get_name v"
  let ?g0 = "DiGraph\<lparr>graph := [(''dst'', ?d)]\<rparr>"
  from rn obtain g' where
    run: "for_each (route_node st m g_phy ?d) (name_to_vertex st) ?g0 = Inr g'"
    and graphs': "graphs' = AList.update ?d g' graphs"
    by (auto simp: route_net_def Let_def bind_Inr_iff)
  have wf: "has_node g_phy x \<and> has_node g_phy y" if "has_edge g_phy x y" for x y
  proof -
    from that output_graph_has_edge [OF md ntv phy]
    have "x \<in> set names" "y \<in> set names" by simp_all
    then have mem: "(x, Vertex x) \<in> set (name_to_vertex st)"
      "(y, Vertex y) \<in> set (name_to_vertex st)" using ntv by auto
    from for_each_each [OF run mem(1)] obtain a b where
      "route_node st m g_phy ?d (x, Vertex x) a = Inr b" by blast
    then obtain r where "has_path g_phy x ?d = Inr r"
      by (auto simp: route_node_def bind_Inr_iff)
    then have x: "has_node g_phy x" by (simp add: has_path_Inr_nodes)
    from for_each_each [OF run mem(2)] obtain a b where
      "route_node st m g_phy ?d (y, Vertex y) a = Inr b" by blast
    then obtain r where "has_path g_phy y ?d = Inr r"
      by (auto simp: route_node_def bind_Inr_iff)
    then have "has_node g_phy y" by (simp add: has_path_Inr_nodes)
    with x show ?thesis by simp
  qed
  have "tree_ok m g_phy ?d g'"
  proof (rule for_each_invariant [where Q = "tree_ok m g_phy ?d", OF run tree_ok_empty])
    fix y s s'
    assume "route_node st m g_phy ?d y s = Inr s'" and "tree_ok m g_phy ?d s"
    then show "tree_ok m g_phy ?d s'"
      using tree_ok_route_node [OF _ ntv _ wf] by blast
  qed
  with graphs' show ?thesis by blast
qed

lemma routing_graphs_tree_ok:
  assumes rg: "get_output_routing_graphs st = Inr graphs"
    and ntv: "name_to_vertex st = map (\<lambda>n. (n, Vertex n)) names"
    and md: "model (solver st) = Some m"
    and phy: "get_output_network_graph st = Inr g_phy"
    and tree: "map_of graphs d = Some tree"
  shows "tree_ok m g_phy d tree"
proof -
  from rg md phy have run: "for_each (route_net st m g_phy) (networks st) [] = Inr graphs"
    by (simp add: get_output_routing_graphs_def solver_model_def bind_def)
  let ?Q = "\<lambda>gs. \<forall>d tree. map_of gs d = Some tree \<longrightarrow> tree_ok m g_phy d tree"
  have "?Q graphs"
  proof (rule for_each_invariant [where Q = ?Q, OF run])
    show "?Q []" by simp
  next
    fix v gs gs'
    assume "route_net st m g_phy v gs = Inr gs'" and q: "?Q gs"
    from tree_ok_route_net [OF this(1) ntv md phy] obtain g' where
      "gs' = AList.update (get_name v) g' gs" "tree_ok m g_phy (get_name v) g'" by blast
    then show "?Q gs'" using q by (auto simp: update_conv')
  qed
  with tree show ?thesis by blast
qed

lemma get_output_routing_graphs_model:
  "get_output_routing_graphs st = Inr graphs \<Longrightarrow>
     \<exists>m g_phy. model (solver st) = Some m \<and> get_output_network_graph st = Inr g_phy"
  by (auto simp: get_output_routing_graphs_def solver_model_def bind_Inr_iff
      split: option.splits)

text \<open>
  C8. After a session with a satisfiable solve, let \<open>tree\<close> be the routing tree that
  \<^verbatim>\<open>get_output_routing_graphs\<close> returns for the destination network \<open>d\<close> and \<open>g_phy\<close> the
  graph that \<^verbatim>\<open>get_output_network_graph\<close> returns. From every node of the tree the output
  graph has a path to \<open>d\<close> (\<^verbatim>\<open>nx.has_path\<close> is true, and there is a simple path of
  \<open>g_phy\<close> from the node to \<open>d\<close>), so the tree has no node from which the destination is
  unreachable. Every edge of the tree is an edge of \<open>g_phy\<close> and has the same attributes
  there, the cost.
\<close>

theorem routing_tree_within_output_graph:
  assumes "session cfgs ng slv names nets calls = Inr st"
    and "get_output_routing_graphs st = Inr graphs"
    and "get_output_network_graph st = Inr g_phy"
    and "map_of graphs d = Some tree"
  shows "(has_node tree n \<longrightarrow>
            has_path g_phy n d = Inr True \<and>
            (\<exists>p. p \<noteq> [] \<and> hd p = n \<and> last p = d \<and> simple_path g_phy p)) \<and>
         (has_edge tree x y \<longrightarrow>
            has_edge g_phy x y \<and> edge_data tree x y = edge_data g_phy x y \<and>
            (\<exists>c. map_of (case edge_data tree x y of Inl e \<Rightarrow> [] | Inr a \<Rightarrow> a) ''cost''
                    = Some c))"
proof -
  have ntv: "name_to_vertex st = map (\<lambda>n. (n, Vertex n)) names"
    by (rule session_registered(1) [OF assms(1)])
  from get_output_routing_graphs_model [OF assms(2)] assms(3) obtain m where
    md: "model (solver st) = Some m" by auto
  have ok: "tree_ok m g_phy d tree"
    by (rule routing_graphs_tree_ok [OF assms(2) ntv md assms(3,4)])
  have nodes: "has_path g_phy n d = Inr True \<and>
            (\<exists>p. p \<noteq> [] \<and> hd p = n \<and> last p = d \<and> simple_path g_phy p)"
    if "has_node tree n"
  proof -
    from ok that have hp: "has_path g_phy n d = Inr True"
      by (auto simp: tree_ok_def has_node_def)
    have "\<exists>p. p \<noteq> [] \<and> hd p = n \<and> last p = d \<and> simple_path g_phy p"
    proof (cases "n = d")
      case True
      then show ?thesis by (intro exI [of _ "[n]"]) (simp add: simple_path_def)
    next
      case False
      with hp obtain p where
        "p \<in> set (simple_paths_from g_phy d (length (node g_phy) - 1) [n])"
        by (cases "simple_paths_from g_phy d (length (node g_phy) - 1) [n]")
          (auto simp: has_path_True_iff)
      from enumerated_simple [OF this False] show ?thesis
        by (intro exI [of _ p]) auto
    qed
    with hp show ?thesis by simp
  qed
  have edges: "has_edge g_phy x y \<and> edge_data tree x y = edge_data g_phy x y \<and>
            (\<exists>c. map_of (case edge_data tree x y of Inl e \<Rightarrow> [] | Inr a \<Rightarrow> a) ''cost''
                    = Some c)"
    if "has_edge tree x y"
  proof -
    from that obtain a where "edge_data tree x y = Inr a" by (auto simp: has_edge_edge_data)
    with ok have t: "edge_data tree x y = Inr [(''cost'', edge_cost_interp m (Vertex x) (Vertex y))]"
      and e: "has_edge g_phy x y"
      unfolding tree_ok_def by (metis sum.distinct(1))+
    from e output_graph_has_edge [OF md ntv assms(3)] output_graph_edge_data [OF md ntv assms(3)]
    have "edge_data g_phy x y = Inr [(''cost'', edge_cost_interp m (Vertex x) (Vertex y))]"
      by simp
    with t e show ?thesis by simp
  qed
  from nodes edges show ?thesis by blast
qed

lemma one_router_session:
  "\<exists>st. session [] (Some one_router_graph) None one_router_names abc_nets
           [Check one_router_model] = Inr st \<and>
        network_graph st = one_router_graph \<and>
        name_to_vertex st = [(''R'', Vertex ''R''), (''N'', Vertex ''N'')] \<and>
        networks st = [Vertex ''N''] \<and> model (solver st) = Some one_router_model"
proof -
  have "\<exists>st. init [] (Some one_router_graph) None one_router_names abc_nets = Inr st \<and>
        sat_model (solver st) one_router_model \<and> network_graph st = one_router_graph \<and>
        name_to_vertex st = [(''R'', Vertex ''R''), (''N'', Vertex ''N'')] \<and>
        networks st = [Vertex ''N'']"
    by (simp add: session_defs one_router_graph_def one_router_names_def abc_nets_def graph_defs
        one_router_model_def)
  then obtain st0 where
    i: "init [] (Some one_router_graph) None one_router_names abc_nets = Inr st0"
    and s: "sat_model (solver st0) one_router_model"
    and g: "network_graph st0 = one_router_graph"
    and n: "name_to_vertex st0 = [(''R'', Vertex ''R''), (''N'', Vertex ''N'')]"
    and w: "networks st0 = [Vertex ''N'']" by blast
  from session_check [OF i s] g n w show ?thesis by simp
qed

lemma one_router_output_graph:
  assumes "network_graph st = one_router_graph"
    and "name_to_vertex st = [(''R'', Vertex ''R''), (''N'', Vertex ''N'')]"
    and "model (solver st) = Some one_router_model"
  shows "get_output_network_graph st =
     Inr \<lparr>graph = [], node = [(''R'', router_attrs), (''N'', [])],
         adj = [(''R'', [(''N'', [(''cost'', 3)])]), (''N'', [])]\<rparr>"
  using assms
  by (simp add: get_output_network_graph_def solver_model_def output_src_def output_dst_def
      add_node_def add_edge_def get_vertex_attributes_def get_edge_attributes_def
      dict_update_def get_name_def one_router_graph_def one_router_model_def
      graph_defs Let_def)

lemma one_router_routing_graphs:
  assumes "network_graph st = one_router_graph"
    and "name_to_vertex st = [(''R'', Vertex ''R''), (''N'', Vertex ''N'')]"
    and "networks st = [Vertex ''N'']"
    and "model (solver st) = Some one_router_model"
  shows "get_output_routing_graphs st =
     Inr [(''N'', \<lparr>graph = [(''dst'', ''N'')], node = [(''R'', router_attrs), (''N'', [])],
                  adj = [(''R'', [(''N'', [(''cost'', 3)])]), (''N'', [])]\<rparr>)]"
  using assms(2-4)
  by (simp add: get_output_routing_graphs_def one_router_output_graph [OF assms(1,2,4)]
      solver_model_def route_net_def route_node_def route_hop_def has_path_def
      shortest_path_def path_weight_def edge_weight_def get_vertex_def
      add_node_def add_edge_def get_vertex_attributes_def get_edge_attributes_def
      dict_update_def get_name_def one_router_model_def graph_defs Let_def hops_def)

theorem routing_tree_within_output_graph_witness:
  "(case session [] (Some one_router_graph) None one_router_names abc_nets
           [Check one_router_model] of
      Inl e \<Rightarrow> False
    | Inr st \<Rightarrow>
        (case get_output_routing_graphs st of
           Inl e \<Rightarrow> False
         | Inr graphs \<Rightarrow>
             (case get_output_network_graph st of
                Inl e \<Rightarrow> False
              | Inr g_phy \<Rightarrow>
                  (case map_of graphs ''N'' of
                     None \<Rightarrow> False
                   | Some tree \<Rightarrow>
                       has_node tree ''R'' \<and> has_path g_phy ''R'' ''N'' = Inr True \<and>
                       has_edge tree ''R'' ''N'' \<and> has_edge g_phy ''R'' ''N'' \<and>
                       edge_data tree ''R'' ''N'' = edge_data g_phy ''R'' ''N'' \<and>
                       edge_data tree ''R'' ''N'' = Inr [(''cost'', 3)]))))"
proof -
  from one_router_session obtain st where
    st: "session [] (Some one_router_graph) None one_router_names abc_nets
           [Check one_router_model] = Inr st"
    and g: "network_graph st = one_router_graph"
    and n: "name_to_vertex st = [(''R'', Vertex ''R''), (''N'', Vertex ''N'')]"
    and w: "networks st = [Vertex ''N'']" and m: "model (solver st) = Some one_router_model"
    by blast
  let ?tree = "\<lparr>graph = [(''dst'', ''N'')], node = [(''R'', router_attrs), (''N'', [])],
                  adj = [(''R'', [(''N'', [(''cost'', 3)])]), (''N'', [])]\<rparr>"
  let ?phy = "\<lparr>graph = [], node = [(''R'', router_attrs), (''N'', [])],
         adj = [(''R'', [(''N'', [(''cost'', 3)])]), (''N'', [])]\<rparr>"
  have rg: "get_output_routing_graphs st = Inr [(''N'', ?tree)]"
    by (rule one_router_routing_graphs [OF g n w m])
  have phy: "get_output_network_graph st = Inr ?phy"
    by (rule one_router_output_graph [OF g n m])
  have t: "map_of [(''N'', ?tree)] ''N'' = Some ?tree" by simp
  have hn: "has_node ?tree ''R''" by (simp add: graph_defs)
  have he: "has_edge ?tree ''R'' ''N''" by (simp add: graph_defs)
  have ed: "edge_data ?tree ''R'' ''N'' = Inr [(''cost'', 3)]" by (simp add: graph_defs)
  from routing_tree_within_output_graph [OF st rg phy t, of "''R''" "''R''" "''N''"] hn he ed
  show ?thesis by (simp add: st rg phy)
qed

subsection \<open>Fixed costs\<close>

lemma set_edge_cost_attr:
  assumes "set_edge_cost g a b c = Inr g'"
  shows "cost_attr g' u v = (if a = u \<and> b = v then Some c else cost_attr g u v)"
proof -
  from assms obtain nbrs d where nbrs: "map_of (adj g) a = Some nbrs"
    and d: "map_of nbrs b = Some d"
    and g': "g' = g\<lparr>adj := AList.update a (AList.update b (AList.update ''cost'' c d) nbrs)
                       (adj g)\<rparr>"
    by (auto simp: set_edge_cost_def bind_Inr_iff getitem_Inr_iff)
  show ?thesis
  proof (cases "u = a")
    case False
    then show ?thesis
      by (simp add: g' cost_attr_def edge_data_def getitem_def bind_def update_conv')
  next
    case True
    show ?thesis
    proof (cases "v = b")
      case False
      then show ?thesis using True nbrs
        by (simp add: g' cost_attr_def edge_data_def getitem_def bind_def update_conv')
    next
      case vb: True
      then show ?thesis using True nbrs d
        by (simp add: g' cost_attr_def edge_data_def getitem_def bind_def update_conv')
    qed
  qed
qed

lemma annotate_costs_attr:
  assumes "for_each annotate_cost cfgs g = Inr g'"
  shows "cost_attr g' u v = given_cost cfgs (cost_attr g u v) u v"
  using assms
proof (induction cfgs arbitrary: g)
  case Nil
  then show ?case by simp
next
  case (Cons tmp cfgs)
  from Cons.prems obtain g1 where g1: "annotate_cost tmp g = Inr g1"
    and rest: "for_each annotate_cost cfgs g1 = Inr g'"
    by (auto simp: bind_Inr_iff)
  show ?case
  proof (cases tmp)
    case (SetOSPFEdgeCost a b c)
    with g1 have "set_edge_cost g a b c = Inr g1" by (simp add: annotate_cost_def)
    from set_edge_cost_attr [OF this] Cons.IH [OF rest] SetOSPFEdgeCost
    show ?thesis by simp
  next
    case OtherConfig
    with g1 have "g1 = g" by (simp add: annotate_cost_def)
    with Cons.IH [OF rest] OtherConfig show ?thesis by simp
  qed
qed

text \<open>The cost attribute of an edge of the Topology Graph of a session is the fixed
  cost the inputs give.\<close>

lemma session_cost_attr:
  assumes "session cfgs (Some g_in) slv names nets calls = Inr st" and "router st n"
  shows "cost_attr (network_graph st) u v = given_cost cfgs (cost_attr g_in u v) u v"
proof -
  from session_inv [OF assms(1)] obtain st0 where
    i: "init cfgs (Some g_in) slv names nets = Inr st0" and fr: "frame st0 st" by blast
  from init_fields(5) [OF i] obtain g0 where g0: "load_graph (Some g_in) = Inr g0"
    and ann: "for_each annotate_cost cfgs g0 = Inr (network_graph st0)" by blast
  from annotate_costs_Inr [OF ann] have nd: "node (network_graph st0) = node g0" by simp
  from fr assms(2) have "has_node (network_graph st0) n" by (simp add: frame_def router_def)
  with nd have "node g0 \<noteq> []" by (auto simp: has_node_def nodes_def)
  from load_graph_Some(1) [OF g0 this] have "cost_attr g0 u v = cost_attr g_in u v"
    by (simp add: cost_attr_def edge_data_def)
  with annotate_costs_attr [OF ann, of u v] fr show ?thesis by (simp add: frame_def)
qed

lemma fixed_cost_resolved:
  assumes run: "session cfgs (Some g_in) slv names nets calls = Inr st"
    and ru: "router st u" and rv: "router st v" and e: "has_edge g_in u v"
    and c: "given_cost cfgs (cost_attr g_in u v) u v = Some c" and nz: "c \<noteq> 0"
    and m: "model (solver st) = Some m"
  shows "edge_interp m (Vertex u) (Vertex v)" and "edge_cost_interp m (Vertex u) (Vertex v) = c"
proof -
  have sat: "sat_model (solver st) m" by (rule session_model_sat [OF run ru rv m])
  have he: "has_edge (network_graph st) u v"
    using session_has_edge [OF run ru] e by simp
  have "cost_attr (network_graph st) u v = Some c"
    using session_cost_attr [OF run ru] c by simp
  then have cc: "cost_constraint (network_graph st) u v
                   = Eq (EdgeCostApp (Vertex u) (Vertex v)) (IntVal c)"
    using nz by (auto simp: cost_attr_def cost_constraint_def split: sum.splits)
  have "EdgeApp (Vertex u) (Vertex v) \<in> set (baseline_pair (network_graph st) u v)"
    using he by (simp add: baseline_pair_def)
  from sat_model_holds [OF sat session_baseline [OF run ru rv this]]
  show "edge_interp m (Vertex u) (Vertex v)" by simp
  have "Eq (EdgeCostApp (Vertex u) (Vertex v)) (IntVal c)
          \<in> set (baseline_pair (network_graph st) u v)"
    using he cc by (simp add: baseline_pair_def)
  from sat_model_holds [OF sat session_baseline [OF run ru rv this]]
  show "edge_cost_interp m (Vertex u) (Vertex v) = c" by simp
qed

end
